theory Spec2Isabelle
  imports Main "HOL-Library.Sublist" "HOL-Library.Char_ord" "HOL-Library.List_Lexorder"
begin

section \<open>Values and the string primitives the flow engine relies on\<close>

text \<open>
  The engine (\<^verbatim>\<open>executeFlow\<close>, \<^verbatim>\<open>processBatch\<close>, \<^verbatim>\<open>processData\<close>) stores values of type
  \<^verbatim>\<open>any\<close> in its result maps. The seeds are \<^verbatim>\<open>pattern\<close> parameters, the operators return
  \<^verbatim>\<open>string\<close> or \<^verbatim>\<open>string[]\<close>, and the previous-output map handed in by the caller is the
  node-output map of the previous pass: these values are strings and arrays of strings.
  A string is a list of code units, here \<^typ>\<open>char\<close>. A third kind of value comes from
  the result maps being object literals: read under a name that every object inherits,
  such as \<^verbatim>\<open>constructor\<close>, they answer a built-in function or, under \<^verbatim>\<open>__proto__\<close>,
  the prototype object. \<open>Obj t l\<close> is such an object, neither a string nor an array:
  \<open>t\<close> is what \<^verbatim>\<open>String\<close> prints for it and \<open>l\<close> its \<^verbatim>\<open>length\<close>, where it has one.
\<close>

datatype val = Str string | Arr "string list" | Obj string "nat option"

definition LF :: char where
  "LF = CHR 0x0A"

definition CR :: char where
  "CR = CHR 0x0D"

text \<open>\<^verbatim>\<open>x || d\<close> on an optional string: \<^verbatim>\<open>undefined\<close> and the empty string are falsy.\<close>

definition str_or :: "string option \<Rightarrow> string \<Rightarrow> string" where
  "str_or x d = (case x of None \<Rightarrow> d | Some s \<Rightarrow> if s = [] then d else s)"

text \<open>\<^verbatim>\<open>x || d\<close> on an optional integer: \<^verbatim>\<open>undefined\<close> and \<^verbatim>\<open>0\<close> are falsy.\<close>

definition num_or :: "int option \<Rightarrow> int \<Rightarrow> int" where
  "num_or x d = (case x of None \<Rightarrow> d | Some n \<Rightarrow> if n = 0 then d else n)"

text \<open>
  A number as the batch loop computes with it: a double. \<open>Finite m e\<close> is the number
  \<open>m / 2\<^sup>e\<close>, the form of every finite double; it is whole when \<open>2\<^sup>e\<close> divides \<open>m\<close>.
\<close>

datatype number = Finite int nat | PosInfinity | NegInfinity | NaN

definition whole :: "int \<Rightarrow> number" where
  "whole n = Finite n 0"

definition is_whole :: "number \<Rightarrow> bool" where
  "is_whole x = (case x of Finite m e \<Rightarrow> 2 ^ e dvd m | _ \<Rightarrow> False)"

text \<open>The integral part of a finite number: the digits behind the point are dropped.\<close>

definition truncated :: "int \<Rightarrow> nat \<Rightarrow> int" where
  "truncated m e = (if m < 0 then - ((- m) div 2 ^ e) else m div 2 ^ e)"

text \<open>\<^verbatim>\<open>x || d\<close> on an optional number: \<^verbatim>\<open>undefined\<close>, zero and \<^verbatim>\<open>NaN\<close> are falsy.\<close>

definition number_or :: "number option \<Rightarrow> number \<Rightarrow> number" where
  "number_or x d =
     (case x of
        None \<Rightarrow> d
      | Some (Finite m e) \<Rightarrow> if m = 0 then d else Finite m e
      | Some NaN \<Rightarrow> d
      | Some y \<Rightarrow> y)"

text \<open>\<^verbatim>\<open>x < n\<close> for a number and a length.\<close>

definition less_length :: "number \<Rightarrow> nat \<Rightarrow> bool" where
  "less_length x n =
     (case x of
        Finite m e \<Rightarrow> m < int n * 2 ^ e
      | PosInfinity \<Rightarrow> False
      | NegInfinity \<Rightarrow> True
      | NaN \<Rightarrow> False)"

text \<open>\<^verbatim>\<open>xs[i]\<close>: \<^verbatim>\<open>undefined\<close> outside the array.\<close>

definition js_index :: "'a list \<Rightarrow> int \<Rightarrow> 'a option" where
  "js_index xs i = (if 0 \<le> i \<and> i < int (length xs) then Some (xs ! nat i) else None)"

text \<open>\<^verbatim>\<open>xs.join(sep)\<close> on an array of strings.\<close>

fun js_join :: "string \<Rightarrow> string list \<Rightarrow> string" where
  "js_join sep [] = []"
| "js_join sep [x] = x"
| "js_join sep (x # y # ys) = x @ sep @ js_join sep (y # ys)"

text \<open>Puts a code unit in front of the first fragment of a split.\<close>

fun cons_hd :: "char \<Rightarrow> string list \<Rightarrow> string list" where
  "cons_hd c [] = [[c]]"
| "cons_hd c (r # rs) = (c # r) # rs"

text \<open>
  \<^verbatim>\<open>s.split(sep)\<close> for a non-empty separator string: the occurrences of \<^verbatim>\<open>sep\<close> are
  found from left to right, each search resuming behind the previous occurrence.
\<close>

function js_split_ne :: "string \<Rightarrow> string \<Rightarrow> string list" where
  "js_split_ne sep [] = [[]]"
| "js_split_ne sep (c # cs) =
     (if sep \<noteq> [] \<and> prefix sep (c # cs)
      then [] # js_split_ne sep (drop (length sep) (c # cs))
      else cons_hd c (js_split_ne sep cs))"
  by pat_completeness auto
termination
  by (relation "measure (\<lambda>(sep, s). length s)") (auto simp: neq_Nil_conv)

text \<open>\<^verbatim>\<open>s.split(sep)\<close>: an empty separator cuts between all code units.\<close>

definition js_split :: "string \<Rightarrow> string \<Rightarrow> string list" where
  "js_split s sep = (if sep = [] then map (\<lambda>c. [c]) s else js_split_ne sep s)"

text \<open>\<^verbatim>\<open>s.split(/\r?\n/)\<close>: cut at every line feed, dropping a carriage return before it.\<close>

fun split_lines :: "string \<Rightarrow> string list" where
  "split_lines [] = [[]]"
| "split_lines [c] = (if c = LF then [[], []] else [[c]])"
| "split_lines (c # d # cs) =
     (if c = LF then [] # split_lines (d # cs)
      else if c = CR \<and> d = LF then [] # split_lines cs
      else cons_hd c (split_lines (d # cs)))"

text \<open>\<^verbatim>\<open>s.includes(sub)\<close>.\<close>

fun js_includes :: "string \<Rightarrow> string \<Rightarrow> bool" where
  "js_includes [] sub = (sub = [])"
| "js_includes (c # cs) sub = (prefix sub (c # cs) \<or> js_includes cs sub)"

text \<open>\<^verbatim>\<open>Array.from(new Set(lines))\<close>: the first occurrence of every line, in order.\<close>

fun js_uniq :: "string list \<Rightarrow> string list" where
  "js_uniq [] = []"
| "js_uniq (x # xs) = x # js_uniq (filter (\<lambda>y. y \<noteq> x) xs)"

text \<open>The decimal numeral of a natural number, as a template string prints a length.\<close>

definition digit :: "nat \<Rightarrow> char" where
  "digit n = ''0123456789'' ! (n mod 10)"

function show_nat :: "nat \<Rightarrow> string" where
  "show_nat n = (if n < 10 then [digit n] else show_nat (n div 10) @ [digit n])"
  by pat_completeness auto
termination
  by (relation "measure (\<lambda>n. n)") auto

text \<open>
  An argument of \<^verbatim>\<open>slice\<close> as an index into an array of length \<open>n\<close>: its integral part,
  counted from the end when negative, and kept within the array.
\<close>

definition slice_index :: "nat \<Rightarrow> number \<Rightarrow> int" where
  "slice_index n x =
     (case x of
        Finite m e \<Rightarrow>
          (let a = truncated m e in if a < 0 then max (int n + a) 0 else min a (int n))
      | PosInfinity \<Rightarrow> int n
      | NegInfinity \<Rightarrow> 0
      | NaN \<Rightarrow> 0)"

text \<open>\<^verbatim>\<open>xs.slice(a, b)\<close>\<close>

definition js_slice :: "'a list \<Rightarrow> number \<Rightarrow> number \<Rightarrow> 'a list" where
  "js_slice xs a b =
     (let k = slice_index (length xs) a;
          f = slice_index (length xs) b
      in take (nat (f - k)) (drop (nat k) xs))"

text \<open>\<^verbatim>\<open>String(v)\<close>: an array prints its elements separated by commas.\<close>

definition js_String :: "val \<Rightarrow> string" where
  "js_String v = (case v of Str s \<Rightarrow> s | Arr xs \<Rightarrow> js_join '','' xs | Obj t l \<Rightarrow> t)"

text \<open>\<^verbatim>\<open>v.length\<close>: \<open>None\<close> is \<^verbatim>\<open>undefined\<close>.\<close>

definition js_length :: "val \<Rightarrow> nat option" where
  "js_length v =
     (case v of Str s \<Rightarrow> Some (length s) | Arr xs \<Rightarrow> Some (length xs) | Obj t l \<Rightarrow> l)"

text \<open>
  What the engine takes from the JavaScript runtime and this development does not
  define: regular expressions (\<^verbatim>\<open>new RegExp(p, flags)\<close> throws on an invalid pattern,
  here \<open>None\<close>; \<^verbatim>\<open>regex.test(l)\<close>; \<^verbatim>\<open>l.replace(regex, r)\<close>), the case mappings, what
  \<^verbatim>\<open>String\<close> prints for the object that object literals inherit under a name, and the
  \<^verbatim>\<open>length\<close> of that object (\<open>inherited_text\<close>, \<open>inherited_length\<close>), and the rounded
  sum of two doubles (\<open>double_add\<close>).
\<close>

record 'rx Runtime =
  regexp_new :: "string \<Rightarrow> string \<Rightarrow> 'rx option"
  regexp_test :: "'rx \<Rightarrow> string \<Rightarrow> bool"
  regexp_replace :: "string \<Rightarrow> 'rx \<Rightarrow> string \<Rightarrow> string"
  toUpperCase :: "string \<Rightarrow> string"
  toLowerCase :: "string \<Rightarrow> string"
  inherited_text :: "string \<Rightarrow> string"
  inherited_length :: "string \<Rightarrow> nat option"
  double_add :: "number \<Rightarrow> number \<Rightarrow> number"

text \<open>
  \<^verbatim>\<open>i + batchSize\<close> in the batch loop, a sum of doubles. The sum of two whole numbers
  is taken exactly. For a batch size that is not negative this is what the runtime
  computes: the first sum is the batch size itself, and every later one is below twice
  the number of lines, which is below \<open>2\<^sup>3\<^sup>3\<close>. For a negative batch size the exact and
  the rounded sums alike are negative, which is all the loop asks of them. Every other
  sum is left to the runtime.
\<close>

definition integral :: "number \<Rightarrow> int" where
  "integral x = (case x of Finite m e \<Rightarrow> truncated m e | _ \<Rightarrow> 0)"

definition num_add :: "'rx Runtime \<Rightarrow> number \<Rightarrow> number \<Rightarrow> number" where
  "num_add rt x y =
     (if is_whole x \<and> is_whole y then whole (integral x + integral y)
      else double_add rt x y)"

section \<open>Object literals as records\<close>

text \<open>
  The engine keeps its tables in objects created by \<^verbatim>\<open>{}\<close>. Such an object answers the
  names it owns, and also the names of \<^verbatim>\<open>Object.prototype\<close>, which it inherits.
\<close>

definition inherited_names :: "string list" where
  "inherited_names =
     [''constructor'', ''hasOwnProperty'', ''isPrototypeOf'', ''propertyIsEnumerable'',
      ''toLocaleString'', ''toString'', ''valueOf'', ''__proto__'', ''__defineGetter__'',
      ''__defineSetter__'', ''__lookupGetter__'', ''__lookupSetter__'']"

text \<open>
  \<^verbatim>\<open>obj[k]\<close> on an object whose own properties are the map \<open>obj\<close>: an own property, an
  inherited one, or \<^verbatim>\<open>undefined\<close>. The name \<^verbatim>\<open>__proto__\<close> is never owned: reading it
  gives the prototype.
\<close>

datatype 'a property = Own 'a | Inherited | Undefined

definition get_property :: "(string \<rightharpoonup> 'a) \<Rightarrow> string \<Rightarrow> 'a property" where
  "get_property obj k =
     (if k = ''__proto__'' then Inherited
      else case obj k of
             Some v \<Rightarrow> Own v
           | None \<Rightarrow> if k \<in> set inherited_names then Inherited else Undefined)"

text \<open>
  \<^verbatim>\<open>obj[k] = v\<close> for a number or a string \<open>v\<close>: under \<^verbatim>\<open>__proto__\<close> the assignment is
  ignored, under any other name the object owns the property afterwards.
\<close>

definition set_primitive :: "(string \<rightharpoonup> 'a) \<Rightarrow> string \<Rightarrow> 'a \<Rightarrow> (string \<rightharpoonup> 'a)" where
  "set_primitive obj k v = (if k = ''__proto__'' then obj else obj(k \<mapsto> v))"

text \<open>
  The object that an object literal inherits under a name: a built-in function or, under
  \<^verbatim>\<open>__proto__\<close>, the prototype. It is truthy, and has neither \<^verbatim>\<open>push\<close> nor
  \<^verbatim>\<open>forEach\<close>.
\<close>

definition inherited_value :: "'rx Runtime \<Rightarrow> string \<Rightarrow> val" where
  "inherited_value rt k = Obj (inherited_text rt k) (inherited_length rt k)"

text \<open>\<^verbatim>\<open>obj[k]\<close> on a table of values: \<open>None\<close> is \<^verbatim>\<open>undefined\<close>.\<close>

definition read_value :: "'rx Runtime \<Rightarrow> (string \<rightharpoonup> val) \<Rightarrow> string \<Rightarrow> val option" where
  "read_value rt obj k =
     (case get_property obj k of
        Own v \<Rightarrow> Some v
      | Inherited \<Rightarrow> Some (inherited_value rt k)
      | Undefined \<Rightarrow> None)"

text \<open>
  How a call of the engine ends other than by returning. \<open>TypeError\<close> is the exception
  thrown where a value that is no function is called. \<open>PrototypeReplaced\<close>: the code
  has assigned an array or another object under the name \<^verbatim>\<open>__proto__\<close>, which replaces
  the prototype of the table assigned to; from there on the table inherits other names
  than those above, and the model does not follow the code.
\<close>

datatype failure = TypeError | PrototypeReplaced

text \<open>\<^verbatim>\<open>xs.forEach(f)\<close> for a body that may end the call.\<close>

fun for_each :: "('a \<Rightarrow> 's \<Rightarrow> failure + 's) \<Rightarrow> 'a list \<Rightarrow> 's \<Rightarrow> failure + 's" where
  "for_each f [] s = Inr s"
| "for_each f (x # xs) s = (case f x s of Inl e \<Rightarrow> Inl e | Inr s' \<Rightarrow> for_each f xs s')"

section \<open>The data model (types.ts)\<close>

datatype NodeType = INPUT | PROCESS | OUTPUT | EMITTER | BRANCH | MERGE | BATCH | SEQUENCE

datatype ProcessType = SPLIT | GREP | REPLACE | MAP | SORT | UNIQ | JOIN | COUNT | UPPER | LOWER

record Params =
  pattern :: "string option"
  replacement :: "string option"
  delimiter :: "string option"
  fieldIndex :: "int option"
  batchSize :: "number option"

record NodeData =
  label :: string
  type :: NodeType
  processType :: "ProcessType option"
  params :: "Params option"
  isActive :: "bool option"
  currentValue :: "val option"
  isResult :: "bool option"

record AppNode =
  node_id :: string
  data :: NodeData

record AppEdge =
  edge_id :: string
  source :: string
  target :: string

record FlowExecutionResult =
  nodeResults :: "string \<rightharpoonup> val"
  edgeResults :: "string \<rightharpoonup> val"

text \<open>\<^verbatim>\<open>params?.f\<close>\<close>

definition param :: "(Params \<Rightarrow> 'a option) \<Rightarrow> Params option \<Rightarrow> 'a option" where
  "param f ps = (case ps of None \<Rightarrow> None | Some p \<Rightarrow> f p)"

section \<open>The operators\<close>

subsection \<open>processBatch\<close>

definition batch_line :: "string list \<Rightarrow> string" where
  "batch_line chunk = ''[Batch of '' @ show_nat (length chunk) @ '']: '' @ js_join '', '' chunk"

text \<open>
  The \<^verbatim>\<open>for (let i = 0; i < lines.length; i += batchSize)\<close> loop. Nothing bounds it
  from the code alone, so it is a partial function: \<open>None\<close> is a loop that does not
  return.
\<close>

partial_function (option) batch_loop ::
    "'rx Runtime \<Rightarrow> string list \<Rightarrow> number \<Rightarrow> number \<Rightarrow> string list \<Rightarrow> string list option" where
  "batch_loop rt lines bs i batches =
     (if less_length i (length lines)
      then batch_loop rt lines bs (num_add rt i bs)
             (batches @ [batch_line (js_slice lines i (num_add rt i bs))])
      else Some batches)"

definition processBatch :: "'rx Runtime \<Rightarrow> val \<Rightarrow> number \<Rightarrow> val option" where
  "processBatch rt input bs =
     (let lines = (case input of
                     Str s \<Rightarrow> filter (\<lambda>l. l \<noteq> []) (split_lines s)
                   | Arr xs \<Rightarrow> xs
                   | Obj t l \<Rightarrow> [js_String input])
      in map_option Arr (batch_loop rt lines bs (whole 0) []))"

subsection \<open>processData\<close>

definition to_lines :: "val \<Rightarrow> string list" where
  "to_lines input =
     (case input of Str s \<Rightarrow> split_lines s | Arr xs \<Rightarrow> xs | Obj t l \<Rightarrow> [js_String input])"

definition op_split :: "val \<Rightarrow> Params option \<Rightarrow> val" where
  "op_split input ps =
     (case input of
        Str s \<Rightarrow> Arr (js_split s (str_or (param delimiter ps) '',''))
      | Arr xs \<Rightarrow> Arr (to_lines input)
      | Obj t l \<Rightarrow> Arr (to_lines input))"

definition op_grep :: "'rx Runtime \<Rightarrow> string list \<Rightarrow> Params option \<Rightarrow> val" where
  "op_grep rt lines ps =
     (let pat = str_or (param pattern ps) ''''
      in case regexp_new rt pat ''i'' of
           Some regex \<Rightarrow> Arr (filter (\<lambda>l. regexp_test rt regex l) lines)
         | None \<Rightarrow> Arr (filter (\<lambda>l. js_includes l pat) lines))"

definition op_replace :: "'rx Runtime \<Rightarrow> string list \<Rightarrow> Params option \<Rightarrow> val" where
  "op_replace rt lines ps =
     (let search = str_or (param pattern ps) '''';
          replace = str_or (param replacement ps) ''''
      in case regexp_new rt search ''g'' of
           Some regex \<Rightarrow> Arr (map (\<lambda>l. regexp_replace rt l regex replace) lines)
         | None \<Rightarrow> Arr (map (\<lambda>l. js_join replace (js_split l search)) lines))"

definition op_map :: "string list \<Rightarrow> Params option \<Rightarrow> val" where
  "op_map lines ps =
     (let fieldIdx = num_or (param fieldIndex ps) 1 - 1;
          delim = str_or (param delimiter ps) '' ''
      in Arr (map (\<lambda>l. let parts = filter (\<lambda>p. p \<noteq> []) (js_split l delim)
                        in str_or (js_index parts fieldIdx) '''') lines))"

definition op_count :: "string list \<Rightarrow> val" where
  "op_count lines =
     Str (''Lines: '' @ show_nat (length lines) @ [LF] @
          ''Characters: '' @ show_nat (length (js_join '''' lines)))"

definition processData :: "'rx Runtime \<Rightarrow> val \<Rightarrow> ProcessType \<Rightarrow> Params option \<Rightarrow> val" where
  "processData rt input pt ps =
     (let lines = to_lines input
      in case pt of
           SPLIT \<Rightarrow> op_split input ps
         | GREP \<Rightarrow> op_grep rt lines ps
         | REPLACE \<Rightarrow> op_replace rt lines ps
         | MAP \<Rightarrow> op_map lines ps
         | SORT \<Rightarrow> Arr (sort lines)
         | UNIQ \<Rightarrow> Arr (js_uniq lines)
         | JOIN \<Rightarrow> Str (js_join (str_or (param delimiter ps) [LF]) lines)
         | COUNT \<Rightarrow> op_count lines
         | UPPER \<Rightarrow> Arr (map (toUpperCase rt) lines)
         | LOWER \<Rightarrow> Arr (map (toLowerCase rt) lines))"

section \<open>The graph execution engine (executeFlow)\<close>

text \<open>
  What the table \<^verbatim>\<open>inDegree\<close> comes to hold: a count; \<^verbatim>\<open>NaN\<close>, where something that
  is no number was decremented; or \<open>Text\<close>, a string that is no numeral, where one was
  added to an inherited function.
\<close>

datatype degree = Count int | NotANumber | Text

text \<open>
  The variables in scope of \<^verbatim>\<open>executeFlow\<close>: its three arguments, the two result tables
  it returns, and the locals of Kahn's algorithm. A table (\<^verbatim>\<open>Record<string, T>\<close>) is given
  by the map of its own properties; it is read with \<open>get_property\<close>, which adds the
  inherited names. The table \<^verbatim>\<open>edgeResults\<close> is written and never read.
\<close>

record flow_state = FlowExecutionResult +
  nodes :: "AppNode list"
  edges :: "AppEdge list"
  prevNodeResults :: "string \<rightharpoonup> val"
  adjacency :: "string \<rightharpoonup> string list"
  inDegree :: "string \<rightharpoonup> degree"
  queue :: "string list"

definition is_source :: "AppNode \<Rightarrow> bool" where
  "is_source node = (type (data node) = INPUT \<or> type (data node) = EMITTER)"

text \<open>\<^verbatim>\<open>node.data.params?.pattern || ""\<close>\<close>

definition node_pattern :: "AppNode \<Rightarrow> string" where
  "node_pattern node = str_or (param pattern (params (data node))) ''''"

text \<open>
  The body of \<^verbatim>\<open>nodes.forEach\<close> (lines 20-27). For the id \<^verbatim>\<open>__proto__\<close> line 21 makes
  the new array the prototype of \<^verbatim>\<open>adjacency\<close>; for any other id the tables come to own
  the properties assigned.
\<close>

definition init_node :: "AppNode \<Rightarrow> flow_state \<Rightarrow> failure + flow_state" where
  "init_node node s =
     (if node_id node = ''__proto__'' then Inl PrototypeReplaced
      else
        (let s1 = s\<lparr>adjacency := (adjacency s)(node_id node \<mapsto> []),
                    inDegree := (inDegree s)(node_id node \<mapsto> Count 0)\<rparr>
         in if is_source node
            then Inr (s1\<lparr>nodeResults :=
                   (nodeResults s1)(node_id node \<mapsto> Str (node_pattern node))\<rparr>)
            else Inr s1))"

text \<open>
  \<^verbatim>\<open>(inDegree[k] || 0) + 1\<close> (line 33): zero, \<^verbatim>\<open>NaN\<close> and \<^verbatim>\<open>undefined\<close> are falsy; a
  string or a function has the numeral \<open>1\<close> appended as text.
\<close>

definition incremented :: "degree property \<Rightarrow> degree" where
  "incremented p =
     (case p of
        Own (Count n) \<Rightarrow> Count (n + 1)
      | Own NotANumber \<Rightarrow> Count 1
      | Own Text \<Rightarrow> Text
      | Inherited \<Rightarrow> Text
      | Undefined \<Rightarrow> Count 1)"

definition count_edge :: "AppEdge \<Rightarrow> flow_state \<Rightarrow> flow_state" where
  "count_edge edge s =
     s\<lparr>inDegree := set_primitive (inDegree s) (target edge)
                     (incremented (get_property (inDegree s) (target edge)))\<rparr>"

text \<open>
  The body of \<^verbatim>\<open>edges.forEach\<close> (lines 29-34). Where the source of the edge is no
  node but a name that \<^verbatim>\<open>adjacency\<close> inherits, line 30 finds a value, and line 31 calls
  its \<^verbatim>\<open>push\<close>, which it does not have.
\<close>

definition init_edge :: "AppEdge \<Rightarrow> flow_state \<Rightarrow> failure + flow_state" where
  "init_edge edge s =
     (case get_property (adjacency s) (source edge) of
        Own ts \<Rightarrow>
          Inr (count_edge edge
                 (s\<lparr>adjacency := (adjacency s)(source edge \<mapsto> ts @ [target edge])\<rparr>))
      | Inherited \<Rightarrow> Inl TypeError
      | Undefined \<Rightarrow> Inr (count_edge edge s))"

text \<open>The state when the \<^verbatim>\<open>while\<close> loop is entered (lines 13-39).\<close>

definition initial_state ::
    "AppNode list \<Rightarrow> AppEdge list \<Rightarrow> (string \<rightharpoonup> val) \<Rightarrow> failure + flow_state" where
  "initial_state ns es prev =
     (let s0 = \<lparr>nodeResults = Map.empty, edgeResults = Map.empty, nodes = ns, edges = es,
                prevNodeResults = prev, adjacency = Map.empty, inDegree = Map.empty,
                queue = []\<rparr>
      in case for_each init_node ns s0 of
           Inl e \<Rightarrow> Inl e
         | Inr s1 \<Rightarrow>
             (case for_each init_edge es s1 of
                Inl e \<Rightarrow> Inl e
              | Inr s2 \<Rightarrow>
                  Inr (s2\<lparr>queue := map node_id
                        (filter (\<lambda>n. get_property (inDegree s2) (node_id n) = Own (Count 0))
                           ns)\<rparr>)))"

text \<open>
  \<^verbatim>\<open>inputs.flat()\<close>: arrays are spliced in, strings stay. Another object would stay as
  well; the engine calls \<^verbatim>\<open>flat\<close> on arrays of arrays only, and the result is left
  open otherwise.
\<close>

definition js_flat :: "val list \<Rightarrow> string list" where
  "js_flat inputs = concat (map (\<lambda>i. case i of Arr xs \<Rightarrow> xs | Str s \<Rightarrow> [s]) inputs)"

definition isArray :: "val \<Rightarrow> bool" where
  "isArray v = (case v of Arr xs \<Rightarrow> True | _ \<Rightarrow> False)"

text \<open>
  The fan-in of lines 53-65: what \<^verbatim>\<open>nodeResults\<close> answers for the sources of the
  incoming edges, where that is not \<^verbatim>\<open>undefined\<close>, and the aggregation of these inputs;
  \<open>None\<close> is \<^verbatim>\<open>inputData\<close> left \<^verbatim>\<open>null\<close>.
\<close>

definition fan_in_inputs :: "'rx Runtime \<Rightarrow> (string \<rightharpoonup> val) \<Rightarrow> AppEdge list \<Rightarrow> val list" where
  "fan_in_inputs rt results incomingEdges =
     List.map_filter (\<lambda>e. read_value rt results (source e)) incomingEdges"

definition aggregate :: "val list \<Rightarrow> val option" where
  "aggregate inputs =
     (if length inputs = 1 then Some (hd inputs)
      else if length inputs > 1 then
        (if list_all isArray inputs then Some (Arr (js_flat inputs))
         else Some (Arr (js_flat
                (map (\<lambda>i. if isArray i then i else Arr [js_String i]) inputs))))
      else None)"

text \<open>\<^verbatim>\<open>inputData\<close> as lines 48-72 compute it for the dequeued node.\<close>

definition input_data :: "'rx Runtime \<Rightarrow> flow_state \<Rightarrow> AppNode \<Rightarrow> val option" where
  "input_data rt s node =
     (let incomingEdges = filter (\<lambda>e. target e = node_id node) (edges s)
      in if incomingEdges \<noteq> []
         then aggregate (fan_in_inputs rt (nodeResults s) incomingEdges)
         else if is_source node then read_value rt (nodeResults s) (node_id node)
         else None)"

text \<open>
  \<^verbatim>\<open>incomingEdges.forEach(e => edgeResults[e.id] = nodeResults[e.source])\<close>. An entry
  that is \<^verbatim>\<open>undefined\<close> is kept as no entry. Under the id \<^verbatim>\<open>__proto__\<close> the assignment
  gives \<^verbatim>\<open>edgeResults\<close> no property of its own: a string is ignored, and an array or
  another object becomes the prototype of the table, which the engine never reads.
\<close>

definition record_edges :: "'rx Runtime \<Rightarrow> flow_state \<Rightarrow> AppEdge list \<Rightarrow> flow_state" where
  "record_edges rt s incomingEdges =
     fold (\<lambda>e t. if edge_id e = ''__proto__'' then t
                 else t\<lparr>edgeResults :=
                   (edgeResults t)(edge_id e := read_value rt (nodeResults s) (source e))\<rparr>)
       incomingEdges s"

text \<open>
  The Sequence matcher (lines 92-110); \<open>prevOutput\<close> is
  \<^verbatim>\<open>prevNodeResults[node.id] || ""\<close>, which the caller below computes. A comparison
  with an \<^verbatim>\<open>undefined\<close> length is false.
\<close>

definition sequence_match :: "string \<Rightarrow> val \<Rightarrow> val \<Rightarrow> val" where
  "sequence_match targetPattern prevOutput inputData =
     (case js_length prevOutput of
        None \<Rightarrow> prevOutput
      | Some n \<Rightarrow>
          if n < length targetPattern then
            (let nextCharNeeded = [targetPattern ! n];
                 inputStr = (case inputData of
                               Arr xs \<Rightarrow> js_join '''' xs
                             | _ \<Rightarrow> js_String inputData)
             in if js_includes inputStr nextCharNeeded
                then Str (js_String prevOutput @ nextCharNeeded)
                else prevOutput)
          else prevOutput)"

text \<open>
  \<^verbatim>\<open>prevNodeResults[node.id] || ""\<close>: only \<^verbatim>\<open>undefined\<close> and the empty string are falsy.
  The previous-output map is an object literal as well.
\<close>

definition prev_output :: "'rx Runtime \<Rightarrow> (string \<rightharpoonup> val) \<Rightarrow> string \<Rightarrow> val" where
  "prev_output rt prev k = (case read_value rt prev k of None \<Rightarrow> Str '''' | Some v \<Rightarrow> v)"

text \<open>
  The dispatch of lines 76-117 on a present \<^verbatim>\<open>inputData\<close>: the value stored as the node's
  output, \<open>None\<close> when the batch loop does not return.
\<close>

definition node_output :: "'rx Runtime \<Rightarrow> flow_state \<Rightarrow> AppNode \<Rightarrow> val \<Rightarrow> val option" where
  "node_output rt s node inputData =
     (case type (data node) of
        PROCESS \<Rightarrow> Some (processData rt inputData
                     (case processType (data node) of None \<Rightarrow> GREP | Some pt \<Rightarrow> pt)
                     (params (data node)))
      | BRANCH \<Rightarrow> Some (processData rt inputData
                     (case processType (data node) of None \<Rightarrow> GREP | Some pt \<Rightarrow> pt)
                     (params (data node)))
      | BATCH \<Rightarrow> processBatch rt inputData
                   (number_or (param batchSize (params (data node))) (whole 3))
      | MERGE \<Rightarrow> Some inputData
      | SEQUENCE \<Rightarrow> Some (sequence_match (node_pattern node)
                     (prev_output rt (prevNodeResults s) (node_id node)) inputData)
      | OUTPUT \<Rightarrow> Some inputData
      | INPUT \<Rightarrow> Some inputData
      | EMITTER \<Rightarrow> Some inputData)"

text \<open>
  \<^verbatim>\<open>nodeResults[node.id] = v\<close> (lines 81-116). Under the id \<^verbatim>\<open>__proto__\<close> a string is
  ignored, and an array or another object becomes the prototype of \<^verbatim>\<open>nodeResults\<close>.
\<close>

definition store_output :: "string \<Rightarrow> val \<Rightarrow> flow_state \<Rightarrow> failure + flow_state" where
  "store_output nodeId v s =
     (if nodeId = ''__proto__''
      then (case v of Str x \<Rightarrow> Inr s | _ \<Rightarrow> Inl PrototypeReplaced)
      else Inr (s\<lparr>nodeResults := (nodeResults s)(nodeId \<mapsto> v)\<rparr>))"

text \<open>\<^verbatim>\<open>inDegree[k]--\<close> (line 123): what is no number becomes \<^verbatim>\<open>NaN\<close>.\<close>

definition decremented :: "degree property \<Rightarrow> degree" where
  "decremented p = (case p of Own (Count n) \<Rightarrow> Count (n - 1) | _ \<Rightarrow> NotANumber)"

text \<open>One neighbour of lines 122-127: decrement, and enqueue on reaching zero.\<close>

definition trigger :: "string \<Rightarrow> flow_state \<Rightarrow> flow_state" where
  "trigger neighborId s =
     (let s1 = s\<lparr>inDegree := set_primitive (inDegree s) neighborId
                                (decremented (get_property (inDegree s) neighborId))\<rparr>
      in if get_property (inDegree s1) neighborId = Own (Count 0)
         then s1\<lparr>queue := queue s1 @ [neighborId]\<rparr>
         else s1)"

text \<open>
  Lines 121-128. An inherited value under the id would have no \<^verbatim>\<open>forEach\<close> to call.
\<close>

definition trigger_neighbors :: "string \<Rightarrow> flow_state \<Rightarrow> failure + flow_state" where
  "trigger_neighbors nodeId s =
     (case get_property (adjacency s) nodeId of
        Own ts \<Rightarrow> Inr (fold trigger ts s)
      | Inherited \<Rightarrow> Inl TypeError
      | Undefined \<Rightarrow> Inr s)"

text \<open>
  The body of the \<^verbatim>\<open>while\<close> loop for the id just shifted off the queue (lines 43-128).
  \<open>None\<close>: the body does not return.
\<close>

definition visit ::
    "'rx Runtime \<Rightarrow> string \<Rightarrow> flow_state \<Rightarrow> (failure + flow_state) option" where
  "visit rt nodeId s =
     (case find (\<lambda>n. node_id n = nodeId) (nodes s) of
        None \<Rightarrow> Some (Inr s)
      | Some node \<Rightarrow>
          (let inputData = input_data rt s node;
               s1 = record_edges rt s (filter (\<lambda>e. target e = nodeId) (edges s))
           in case inputData of
                None \<Rightarrow> Some (trigger_neighbors nodeId s1)
              | Some d \<Rightarrow>
                  (case node_output rt s1 node d of
                     None \<Rightarrow> None
                   | Some v \<Rightarrow>
                       (case store_output nodeId v s1 of
                          Inl e \<Rightarrow> Some (Inl e)
                        | Inr s2 \<Rightarrow> Some (trigger_neighbors nodeId s2)))))"

text \<open>
  The neighbours the loop can ever decrement, and the measure that bounds it:
  the queue length plus the number of those neighbours with a positive count.
\<close>

definition neighbours :: "flow_state \<Rightarrow> string set" where
  "neighbours s =
     (\<Union>n \<in> set (nodes s). case adjacency s (node_id n) of None \<Rightarrow> {} | Some ts \<Rightarrow> set ts)"

definition waiting :: "flow_state \<Rightarrow> string set" where
  "waiting s =
     {k \<in> neighbours s. \<exists>d. get_property (inDegree s) k = Own (Count d) \<and> 0 < d}"

definition loop_measure :: "flow_state \<Rightarrow> nat" where
  "loop_measure s = length (queue s) + card (waiting s)"

text \<open>
  The \<^verbatim>\<open>while (queue.length > 0)\<close> loop (lines 41-129): shift the first id off the queue
  and run the body. \<open>None\<close>: the loop, or a body, does not return.
\<close>

partial_function (option) run ::
    "'rx Runtime \<Rightarrow> flow_state \<Rightarrow> (failure + flow_state) option" where
  "run rt s =
     (case queue s of
        [] \<Rightarrow> Some (Inr s)
      | nodeId # rest \<Rightarrow>
          (case visit rt nodeId (s\<lparr>queue := rest\<rparr>) of
             None \<Rightarrow> None
           | Some (Inl e) \<Rightarrow> Some (Inl e)
           | Some (Inr s') \<Rightarrow> run rt s'))"

text \<open>
  The state in which \<^verbatim>\<open>executeFlow\<close> reaches its \<^verbatim>\<open>return\<close>, or the failure that ends
  the call.
\<close>

definition final_state ::
    "'rx Runtime \<Rightarrow> AppNode list \<Rightarrow> AppEdge list \<Rightarrow> (string \<rightharpoonup> val)
       \<Rightarrow> (failure + flow_state) option" where
  "final_state rt ns es prev =
     (case initial_state ns es prev of Inl e \<Rightarrow> Some (Inl e) | Inr s \<Rightarrow> run rt s)"

text \<open>
  \<^verbatim>\<open>executeFlow(nodes, edges, prevNodeResults)\<close>. \<open>None\<close>: the call does not return;
  \<open>Some (Inl e)\<close>: it ends with the failure \<open>e\<close>; \<open>Some (Inr r)\<close>: it returns \<open>r\<close>, the own
  properties of the two result tables.
\<close>

definition executeFlow ::
    "'rx Runtime \<Rightarrow> AppNode list \<Rightarrow> AppEdge list \<Rightarrow> (string \<rightharpoonup> val)
       \<Rightarrow> (failure + FlowExecutionResult) option" where
  "executeFlow rt ns es prev =
     map_option (map_sum id (\<lambda>s. \<lparr>nodeResults = nodeResults s, edgeResults = edgeResults s\<rparr>))
       (final_state rt ns es prev)"

text \<open>Whether a call returns, and what.\<close>

definition returns :: "(failure + 'a) option \<Rightarrow> bool" where
  "returns x = (case x of Some (Inr r) \<Rightarrow> True | _ \<Rightarrow> False)"

definition returned :: "(failure + 'a) option \<Rightarrow> 'a" where
  "returned x = projr (the x)"

definition failure_of :: "(failure + 'a) option \<Rightarrow> failure option" where
  "failure_of x = (case x of Some (Inl e) \<Rightarrow> Some e | _ \<Rightarrow> None)"

declare batch_loop.simps [code]

declare run.simps [code]

section \<open>Notions the claims are stated with\<close>

subsection \<open>Inputs, fields and delimiters\<close>

text \<open>
  The ids that are not names every object inherits: those of all nodes, and those the
  edges name as their sources. For such an id a table answers its own entry or
  \<^verbatim>\<open>undefined\<close>, as a map does.
\<close>

definition plain_ids :: "AppNode list \<Rightarrow> AppEdge list \<Rightarrow> bool" where
  "plain_ids ns es \<longleftrightarrow>
     (\<forall>n \<in> set ns. node_id n \<notin> set inherited_names) \<and>
     (\<forall>e \<in> set es. source e \<notin> set inherited_names)"

text \<open>
  The outputs upstream of the node with the id \<open>k\<close> in a result map: for every edge into
  \<open>k\<close>, in the order of the edge list, the output of the edge's source, where it has one.
\<close>

definition upstream_outputs :: "(string \<rightharpoonup> val) \<Rightarrow> AppEdge list \<Rightarrow> string \<Rightarrow> val list" where
  "upstream_outputs results es k =
     map (\<lambda>e. the (results (source e)))
       (filter (\<lambda>e. target e = k \<and> results (source e) \<noteq> None) es)"

text \<open>
  The outputs that reach a node in a state of the loop: for every edge into the node, in
  the order of the edge list, what the table of node outputs answers for the edge's
  source, unless that is \<^verbatim>\<open>undefined\<close>.
\<close>

definition incoming_outputs :: "'rx Runtime \<Rightarrow> flow_state \<Rightarrow> AppNode \<Rightarrow> val list" where
  "incoming_outputs rt s node =
     map (\<lambda>e. the (read_value rt (nodeResults s) (source e)))
       (filter (\<lambda>e. target e = node_id node \<and> read_value rt (nodeResults s) (source e) \<noteq> None)
          (edges s))"


text \<open>
  The field of a line as the extract-field operation is described: split the line at
  the delimiter, drop the empty fragments, take the field with the 1-based index \<open>k\<close>,
  or the empty string where there is none.
\<close>

definition field_at :: "string \<Rightarrow> int \<Rightarrow> string \<Rightarrow> string" where
  "field_at d k l =
     (let parts = filter (\<lambda>p. p \<noteq> []) (js_split l d)
      in if 1 \<le> k \<and> k \<le> int (length parts) then parts ! nat (k - 1) else '''')"

text \<open>
  Literal replacement as the substitute operation's fallback is described: every
  occurrence of the search string, found from left to right without overlap, is
  replaced.
\<close>

function replace_all :: "string \<Rightarrow> string \<Rightarrow> string \<Rightarrow> string" where
  "replace_all search repl [] = []"
| "replace_all search repl (c # cs) =
     (if search \<noteq> [] \<and> prefix search (c # cs)
      then repl @ replace_all search repl (drop (length search) (c # cs))
      else c # replace_all search repl cs)"
  by pat_completeness auto
termination
  by (relation "measure (\<lambda>(search, repl, s). length s)") (auto simp: neq_Nil_conv)

text \<open>
  A delimiter without a border: no proper non-empty prefix of it is also its suffix.
  Every single-character delimiter is one, as are \<open>ab\<close> and a comma followed by a blank;
  \<open>aa\<close> and \<open>--\<close> are not.
\<close>

definition unbordered :: "string \<Rightarrow> bool" where
  "unbordered d = (\<forall>k \<in> {1..<length d}. take k d \<noteq> drop (length d - k) d)"

text \<open>
  Every Batch node is configured with no batch size, or with one that is a whole number
  and not negative.
\<close>

definition batch_sizes_ok :: "AppNode list \<Rightarrow> bool" where
  "batch_sizes_ok ns =
     (\<forall>n \<in> set ns. type (data n) = BATCH \<longrightarrow>
        (case param batchSize (params (data n)) of
           None \<Rightarrow> True
         | Some b \<Rightarrow> is_whole b \<and> 0 \<le> integral b))"

subsection \<open>The graph and its schedule\<close>

definition node_ids :: "AppNode list \<Rightarrow> string set" where
  "node_ids ns = node_id ` set ns"

text \<open>The edges as a relation between ids: from the source of an edge to its target.\<close>

definition edge_rel :: "AppEdge list \<Rightarrow> (string \<times> string) set" where
  "edge_rel es = (\<lambda>e. (source e, target e)) ` set es"

text \<open>
  A well-formed acyclic graph: the ids of the nodes are unique, every edge joins two
  nodes, and no path of edges leads from a node back to itself.
\<close>

definition acyclic_graph :: "AppNode list \<Rightarrow> AppEdge list \<Rightarrow> bool" where
  "acyclic_graph ns es \<longleftrightarrow>
     distinct (map node_id ns) \<and>
     (\<forall>e \<in> set es. source e \<in> node_ids ns \<and> target e \<in> node_ids ns) \<and>
     acyclic (edge_rel es)"

text \<open>The targets of the edges that leave \<open>u\<close>, in the order of the edge list.\<close>

definition outgoing :: "AppEdge list \<Rightarrow> string \<Rightarrow> string list" where
  "outgoing es u = map target (filter (\<lambda>e. source e = u) es)"

text \<open>
  The number of edges into \<open>k\<close> whose source is not in \<open>D\<close>; with the empty \<open>D\<close>, the
  in-degree of \<open>k\<close>.
\<close>

definition pending :: "string set \<Rightarrow> AppEdge list \<Rightarrow> string \<Rightarrow> nat" where
  "pending D es k = length (filter (\<lambda>e. target e = k \<and> source e \<notin> D) es)"

text \<open>The output seeded before the loop (lines 24-26): the pattern of a Source node.\<close>

definition seed_of :: "AppNode \<Rightarrow> val option" where
  "seed_of n = (if is_source n then Some (Str (node_pattern n)) else None)"

text \<open>
  The nodes the loop dequeues: those all of whose incoming edges come from nodes that are
  dequeued themselves. A node on a cycle, behind one, or at the target of an edge whose
  source is no node, is not among them.
\<close>

inductive scheduled :: "AppNode list \<Rightarrow> AppEdge list \<Rightarrow> string \<Rightarrow> bool"
  for ns :: "AppNode list" and es :: "AppEdge list" where
  "k \<in> node_ids ns \<Longrightarrow> (\<forall>e \<in> set es. target e = k \<longrightarrow> scheduled ns es (source e)) \<Longrightarrow>
     scheduled ns es k"

text \<open>
  A node's output agrees with the outputs upstream of it: without an input from
  upstream it is the node's seed, if any; with one, the operator of the node has
  returned a value on the aggregated input, and that value is the output.
\<close>

definition settled :: "'rx Runtime \<Rightarrow> flow_state \<Rightarrow> AppNode \<Rightarrow> bool" where
  "settled rt s n =
     (case aggregate (incoming_outputs rt s n) of
        None \<Rightarrow> nodeResults s (node_id n) = seed_of n
      | Some d \<Rightarrow> nodeResults s (node_id n) \<noteq> None \<and>
                  nodeResults s (node_id n) = node_output rt s n d)"

text \<open>
  The invariant of the queue loop for a node list with unique ids, none of them
  \<^verbatim>\<open>__proto__\<close>, where \<open>D\<close> is the set of the nodes dequeued so far: the arguments and
  the adjacency lists are as built before the loop; no node waits in the queue twice or
  again; the count of a node is the number of its incoming edges from sources not yet
  dequeued; a node is in the queue or dequeued exactly when that number is zero; only
  scheduled nodes are dequeued; and the output of a dequeued node is settled, that of
  any other node its seed.
\<close>

definition kahn_inv ::
    "'rx Runtime \<Rightarrow> AppNode list \<Rightarrow> AppEdge list \<Rightarrow> (string \<rightharpoonup> val) \<Rightarrow> string set
       \<Rightarrow> flow_state \<Rightarrow> bool" where
  "kahn_inv rt ns es prev D s \<longleftrightarrow>
     nodes s = ns \<and> edges s = es \<and> prevNodeResults s = prev \<and>
     ''__proto__'' \<notin> node_ids ns \<and>
     adjacency s = (\<lambda>u. if u \<in> node_ids ns then Some (outgoing es u) else None) \<and>
     D \<subseteq> node_ids ns \<and>
     (\<forall>k \<in> node_ids ns. count_list (queue s) k \<le> 1) \<and>
     set (queue s) \<inter> D = {} \<and>
     (\<forall>k \<in> node_ids ns. inDegree s k = Some (Count (int (pending D es k)))) \<and>
     (\<forall>k \<in> node_ids ns. k \<in> set (queue s) \<union> D \<longleftrightarrow> pending D es k = 0) \<and>
     (\<forall>k \<in> D. scheduled ns es k) \<and>
     (\<forall>n \<in> set ns. if node_id n \<in> D then settled rt s n
                     else nodeResults s (node_id n) = seed_of n) \<and>
     (\<forall>k. k \<notin> node_ids ns \<longrightarrow> nodeResults s k = None)"

section \<open>Sample nodes, edges and a sample runtime\<close>

definition mk_node :: "string \<Rightarrow> NodeType \<Rightarrow> ProcessType option \<Rightarrow> Params option \<Rightarrow> AppNode" where
  "mk_node i t pt ps =
     \<lparr>node_id = i,
      data = \<lparr>label = i, type = t, processType = pt, params = ps, isActive = None,
              currentValue = None, isResult = None\<rparr>\<rparr>"

definition mk_edge :: "string \<Rightarrow> string \<Rightarrow> string \<Rightarrow> AppEdge" where
  "mk_edge i a b = \<lparr>edge_id = i, source = a, target = b\<rparr>"

definition no_params :: Params where
  "no_params = \<lparr>pattern = None, replacement = None, delimiter = None, fieldIndex = None,
                 batchSize = None\<rparr>"

definition grep_params :: "string \<Rightarrow> Params option" where
  "grep_params p = Some (no_params\<lparr>pattern := Some p\<rparr>)"

definition sed_params :: "string \<Rightarrow> string \<Rightarrow> Params option" where
  "sed_params p r = Some (no_params\<lparr>pattern := Some p, replacement := Some r\<rparr>)"

definition delimiter_params :: "string \<Rightarrow> Params option" where
  "delimiter_params d = Some (no_params\<lparr>delimiter := Some d\<rparr>)"

text \<open>The previous-output map of a first pass, and one that holds a Sequence progress.\<close>

definition first_pass :: "string \<rightharpoonup> val" where
  "first_pass = Map.empty"

definition seq_progress :: "string \<Rightarrow> (string \<rightharpoonup> val)" where
  "seq_progress p = [''seq'' \<mapsto> Str p]"

text \<open>
  A small runtime for the examples. It compiles the patterns made of letters, digits and
  blanks only, all of which JavaScript accepts and matches literally, and rejects every
  other pattern, among them the invalid \<^verbatim>\<open>a(\<close>. Case mapping is the ASCII one.
\<close>

definition ascii_lower :: "char \<Rightarrow> char" where
  "ascii_lower c =
     (case map_of (zip ''ABCDEFGHIJKLMNOPQRSTUVWXYZ'' ''abcdefghijklmnopqrstuvwxyz'') c of
        None \<Rightarrow> c | Some d \<Rightarrow> d)"

definition ascii_upper :: "char \<Rightarrow> char" where
  "ascii_upper c =
     (case map_of (zip ''abcdefghijklmnopqrstuvwxyz'' ''ABCDEFGHIJKLMNOPQRSTUVWXYZ'') c of
        None \<Rightarrow> c | Some d \<Rightarrow> d)"

definition plain_pattern :: "string \<Rightarrow> bool" where
  "plain_pattern p =
     list_all (\<lambda>c. c \<in> set ''ABCDEFGHIJKLMNOPQRSTUVWXYZabcdefghijklmnopqrstuvwxyz0123456789 '') p"

text \<open>
  What an object literal inherits under a name: under \<^verbatim>\<open>__proto__\<close> the prototype, an
  object without a length; under \<^verbatim>\<open>constructor\<close> the function \<^verbatim>\<open>Object\<close>; under any
  other name a function of that name. The length of a function is the number of its
  parameters.
\<close>

definition builtin_text :: "string \<Rightarrow> string" where
  "builtin_text k =
     (if k = ''__proto__'' then ''[object Object]''
      else if k = ''constructor'' then ''function Object() { [native code] }''
      else ''function '' @ k @ ''() { [native code] }'')"

definition builtin_length :: "string \<Rightarrow> nat option" where
  "builtin_length k =
     (if k = ''__proto__'' then None
      else if k \<in> set [''__defineGetter__'', ''__defineSetter__''] then Some 2
      else if k \<in> set [''toString'', ''valueOf'', ''toLocaleString''] then Some 0
      else Some 1)"

text \<open>
  The sum of two numbers without rounding, which is what a double sum is where the
  exact sum is a double; the examples call it on no other finite numbers.
\<close>

definition exact_add :: "number \<Rightarrow> number \<Rightarrow> number" where
  "exact_add x y =
     (case (x, y) of
        (Finite m e, Finite m' e') \<Rightarrow> Finite (m * 2 ^ e' + m' * 2 ^ e) (e + e')
      | (Finite m e, z) \<Rightarrow> z
      | (z, Finite m e) \<Rightarrow> z
      | (PosInfinity, PosInfinity) \<Rightarrow> PosInfinity
      | (NegInfinity, NegInfinity) \<Rightarrow> NegInfinity
      | _ \<Rightarrow> NaN)"

definition sample_runtime :: "(string \<times> string) Runtime" where
  "sample_runtime =
     \<lparr>regexp_new = (\<lambda>p flags. if plain_pattern p then Some (p, flags) else None),
      regexp_test = (\<lambda>(p, flags) l.
         if CHR ''i'' \<in> set flags then js_includes (map ascii_lower l) (map ascii_lower p)
         else js_includes l p),
      regexp_replace = (\<lambda>l (p, flags) r.
         if p = [] then r @ concat (map (\<lambda>c. c # r) l) else js_join r (js_split l p)),
      toUpperCase = map ascii_upper,
      toLowerCase = map ascii_lower,
      inherited_text = builtin_text,
      inherited_length = builtin_length,
      double_add = exact_add\<rparr>"


text \<open>A source feeding a Sequence node with the target pattern \<open>AB\<close>.\<close>

definition seq_node :: AppNode where
  "seq_node = mk_node ''seq'' SEQUENCE None (Some (no_params\<lparr>pattern := Some ''AB''\<rparr>))"

definition seq_nodes :: "string \<Rightarrow> AppNode list" where
  "seq_nodes buffer =
     [mk_node ''src'' EMITTER None (Some (no_params\<lparr>pattern := Some buffer\<rparr>)), seq_node]"

definition seq_edges :: "AppEdge list" where
  "seq_edges = [mk_edge ''e1'' ''src'' ''seq'']"

text \<open>A source with three lines feeding a Batch node of the given size.\<close>

definition batch_nodes :: "number \<Rightarrow> AppNode list" where
  "batch_nodes b =
     [mk_node ''src'' INPUT None (grep_params (''a'' @ [LF] @ ''b'' @ [LF] @ ''c'')),
      mk_node ''batch'' BATCH None (Some (no_params\<lparr>batchSize := Some b\<rparr>))]"

definition batch_edges :: "AppEdge list" where
  "batch_edges = [mk_edge ''e1'' ''src'' ''batch'']"

text \<open>A node that is no source and has no input, and a sink behind it.\<close>

definition idle_nodes :: "AppNode list" where
  "idle_nodes = [mk_node ''p'' PROCESS (Some GREP) None, mk_node ''out'' OUTPUT None None]"

definition idle_edges :: "AppEdge list" where
  "idle_edges = [mk_edge ''e1'' ''p'' ''out'']"

text \<open>A source feeding a second source.\<close>

definition pass_nodes :: "AppNode list" where
  "pass_nodes = [mk_node ''a'' INPUT None (grep_params ''hi''),
                 mk_node ''b'' INPUT None (grep_params ''seed'')]"

definition pass_edges :: "AppEdge list" where
  "pass_edges = [mk_edge ''e1'' ''a'' ''b'']"

text \<open>A source behind a node that is no source and has no input.\<close>

definition starved_nodes :: "AppNode list" where
  "starved_nodes = [mk_node ''p'' PROCESS (Some GREP) None,
                    mk_node ''b'' INPUT None (grep_params ''seed'')]"

definition starved_edges :: "AppEdge list" where
  "starved_edges = [mk_edge ''e1'' ''p'' ''b'']"

text \<open>Two sources on a cycle.\<close>

definition cycle_nodes :: "AppNode list" where
  "cycle_nodes = [mk_node ''a'' INPUT None (grep_params ''x''),
                  mk_node ''b'' INPUT None (grep_params ''y'')]"

definition cycle_edges :: "AppEdge list" where
  "cycle_edges = [mk_edge ''e1'' ''a'' ''b'', mk_edge ''e2'' ''b'' ''a'']"

text \<open>
  A source feeding a sink, and a second edge into the sink whose source \<open>ghost\<close> is no
  node.
\<close>

definition sink_nodes :: "AppNode list" where
  "sink_nodes = [mk_node ''a'' INPUT None (grep_params ''hi''), mk_node ''b'' OUTPUT None None]"

definition sink_edge :: AppEdge where
  "sink_edge = mk_edge ''e1'' ''a'' ''b''"

definition dangling_edge :: AppEdge where
  "dangling_edge = mk_edge ''e2'' ''ghost'' ''b''"

text \<open>
  A node that is no source and has no input, under the id \<^verbatim>\<open>constructor\<close>, which every
  object inherits, in front of a sink and in front of a source.
\<close>

definition inherited_nodes :: "NodeType \<Rightarrow> AppNode list" where
  "inherited_nodes t =
     [mk_node ''constructor'' PROCESS (Some GREP) None, mk_node ''b'' t None (grep_params ''seed'')]"

definition inherited_edges :: "AppEdge list" where
  "inherited_edges = [mk_edge ''e1'' ''constructor'' ''b'']"

text \<open>An edge into the sink whose source is no node, but a name every object inherits.\<close>

definition inherited_source_edge :: AppEdge where
  "inherited_source_edge = mk_edge ''e2'' ''constructor'' ''b''"

text \<open>A source in front of a filter and a sink that feed each other.\<close>

definition loop_nodes :: "AppNode list" where
  "loop_nodes = [mk_node ''a'' INPUT None (grep_params ''x''),
                 mk_node ''p'' PROCESS (Some GREP) (grep_params ''x''),
                 mk_node ''q'' OUTPUT None None]"

definition loop_edges :: "AppEdge list" where
  "loop_edges = [mk_edge ''e1'' ''a'' ''p'', mk_edge ''e2'' ''p'' ''q'', mk_edge ''e3'' ''q'' ''p'']"

section \<open>The loop of executeFlow\<close>

subsection \<open>What the steps leave unchanged\<close>

lemma get_property_plain:
  "k \<notin> set inherited_names \<Longrightarrow>
     get_property obj k = (case obj k of Some v \<Rightarrow> Own v | None \<Rightarrow> Undefined)"
  by (auto simp: get_property_def inherited_names_def split: option.splits)

lemma get_property_Own:
  "get_property obj k = Own v \<longleftrightarrow> k \<noteq> ''__proto__'' \<and> obj k = Some v"
  by (auto simp: get_property_def split: option.splits)

lemma read_value_plain: "k \<notin> set inherited_names \<Longrightarrow> read_value rt obj k = obj k"
  by (simp add: read_value_def get_property_plain split: option.splits)

lemma read_value_Some_own: "k \<noteq> ''__proto__'' \<Longrightarrow> obj k = Some v \<Longrightarrow> read_value rt obj k = Some v"
  by (simp add: read_value_def get_property_def)

lemma for_each_invariant:
  assumes "for_each f xs s = Inr s'" and "P s"
    and "\<And>x t t'. x \<in> set xs \<Longrightarrow> P t \<Longrightarrow> f x t = Inr t' \<Longrightarrow> P t'"
  shows "P s'"
  using assms
proof (induction xs arbitrary: s)
  case Nil
  then show ?case by simp
next
  case (Cons x xs)
  from Cons.prems(1) obtain t where t: "f x s = Inr t" and r: "for_each f xs t = Inr s'"
    by (auto split: sum.splits)
  from Cons.prems(3) [of x s t] Cons.prems(2) t have "P t" by simp
  show ?case
  proof (rule Cons.IH [OF r \<open>P t\<close>])
    fix y u u' assume "y \<in> set xs" "P u" "f y u = Inr u'"
    then show "P u'" using Cons.prems(3) [of y u u'] by simp
  qed
qed

lemma init_node_frame:
  assumes "init_node n s = Inr s'"
  shows "nodes s' = nodes s" "edges s' = edges s" "prevNodeResults s' = prevNodeResults s"
    "edgeResults s' = edgeResults s" "queue s' = queue s"
  using assms by (auto simp: init_node_def Let_def split: if_splits)

lemma count_edge_frame [simp]:
  "nodes (count_edge e s) = nodes s" "edges (count_edge e s) = edges s"
  "prevNodeResults (count_edge e s) = prevNodeResults s"
  "edgeResults (count_edge e s) = edgeResults s" "queue (count_edge e s) = queue s"
  "nodeResults (count_edge e s) = nodeResults s" "adjacency (count_edge e s) = adjacency s"
  by (simp_all add: count_edge_def)

lemma init_edge_frame:
  assumes "init_edge e s = Inr s'"
  shows "nodes s' = nodes s" "edges s' = edges s" "prevNodeResults s' = prevNodeResults s"
    "edgeResults s' = edgeResults s" "queue s' = queue s" "nodeResults s' = nodeResults s"
  using assms by (auto simp: init_edge_def split: property.splits)

lemma for_each_init_node_frame:
  assumes "for_each init_node ns s = Inr s'"
  shows "nodes s' = nodes s" "edges s' = edges s" "prevNodeResults s' = prevNodeResults s"
    "edgeResults s' = edgeResults s" "queue s' = queue s"
proof -
  have "nodes s' = nodes s \<and> edges s' = edges s \<and> prevNodeResults s' = prevNodeResults s \<and>
        edgeResults s' = edgeResults s \<and> queue s' = queue s"
    by (rule for_each_invariant [OF assms]) (auto dest: init_node_frame)
  then show "nodes s' = nodes s" "edges s' = edges s" "prevNodeResults s' = prevNodeResults s"
    "edgeResults s' = edgeResults s" "queue s' = queue s" by simp_all
qed

lemma for_each_init_edge_frame:
  assumes "for_each init_edge es s = Inr s'"
  shows "nodes s' = nodes s" "edges s' = edges s" "prevNodeResults s' = prevNodeResults s"
    "edgeResults s' = edgeResults s" "queue s' = queue s" "nodeResults s' = nodeResults s"
proof -
  have "nodes s' = nodes s \<and> edges s' = edges s \<and> prevNodeResults s' = prevNodeResults s \<and>
        edgeResults s' = edgeResults s \<and> queue s' = queue s \<and> nodeResults s' = nodeResults s"
    by (rule for_each_invariant [OF assms]) (auto dest: init_edge_frame)
  then show "nodes s' = nodes s" "edges s' = edges s" "prevNodeResults s' = prevNodeResults s"
    "edgeResults s' = edgeResults s" "queue s' = queue s" "nodeResults s' = nodeResults s"
    by simp_all
qed

text \<open>The two loops that a returning \<open>initial_state\<close> has run.\<close>

lemma initial_state_Inr:
  assumes "initial_state ns es prev = Inr s"
  obtains s1 s2 where
    "for_each init_node ns
       \<lparr>nodeResults = Map.empty, edgeResults = Map.empty, nodes = ns, edges = es,
        prevNodeResults = prev, adjacency = Map.empty, inDegree = Map.empty, queue = []\<rparr> = Inr s1"
    and "for_each init_edge es s1 = Inr s2"
    and "s = s2\<lparr>queue := map node_id
            (filter (\<lambda>n. get_property (inDegree s2) (node_id n) = Own (Count 0)) ns)\<rparr>"
  using assms by (auto simp: initial_state_def Let_def split: sum.splits)

lemma initial_state_frame:
  assumes "initial_state ns es prev = Inr s"
  shows "nodes s = ns" "edges s = es" "prevNodeResults s = prev" "edgeResults s = Map.empty"
proof -
  from assms obtain s1 s2 where
    1: "for_each init_node ns
       \<lparr>nodeResults = Map.empty, edgeResults = Map.empty, nodes = ns, edges = es,
        prevNodeResults = prev, adjacency = Map.empty, inDegree = Map.empty, queue = []\<rparr> = Inr s1"
    and 2: "for_each init_edge es s1 = Inr s2"
    and 3: "s = s2\<lparr>queue := map node_id
            (filter (\<lambda>n. get_property (inDegree s2) (node_id n) = Own (Count 0)) ns)\<rparr>"
    by (rule initial_state_Inr)
  from for_each_init_node_frame [OF 1] for_each_init_edge_frame [OF 2] 3
  show "nodes s = ns" "edges s = es" "prevNodeResults s = prev" "edgeResults s = Map.empty"
    by simp_all
qed

lemma fold_edgeResults:
  "fold (\<lambda>e t. if P e then t else t\<lparr>edgeResults := (edgeResults t)(edge_id e := f e)\<rparr>) es t =
     t\<lparr>edgeResults := fold (\<lambda>e m. if P e then m else m(edge_id e := f e)) es (edgeResults t)\<rparr>"
  by (induction es arbitrary: t) simp_all

lemma record_edges_eq:
  "record_edges rt s es =
     s\<lparr>edgeResults := fold (\<lambda>e m. if edge_id e = ''__proto__'' then m
                                   else m(edge_id e := read_value rt (nodeResults s) (source e)))
                         es (edgeResults s)\<rparr>"
  by (simp add: record_edges_def fold_edgeResults)

lemma record_edges_frame [simp]:
  "nodes (record_edges rt s es) = nodes s" "edges (record_edges rt s es) = edges s"
  "prevNodeResults (record_edges rt s es) = prevNodeResults s"
  "nodeResults (record_edges rt s es) = nodeResults s"
  "adjacency (record_edges rt s es) = adjacency s" "inDegree (record_edges rt s es) = inDegree s"
  "queue (record_edges rt s es) = queue s"
  by (simp_all add: record_edges_eq)

lemma trigger_frame [simp]:
  "nodes (trigger k s) = nodes s" "edges (trigger k s) = edges s"
  "prevNodeResults (trigger k s) = prevNodeResults s"
  "nodeResults (trigger k s) = nodeResults s" "edgeResults (trigger k s) = edgeResults s"
  "adjacency (trigger k s) = adjacency s"
  by (simp_all add: trigger_def Let_def)

lemma fold_trigger_frame [simp]:
  "nodes (fold trigger ks s) = nodes s" "edges (fold trigger ks s) = edges s"
  "prevNodeResults (fold trigger ks s) = prevNodeResults s"
  "nodeResults (fold trigger ks s) = nodeResults s"
  "edgeResults (fold trigger ks s) = edgeResults s"
  "adjacency (fold trigger ks s) = adjacency s"
  by (induction ks arbitrary: s; simp)+

lemma trigger_neighbors_frame:
  assumes "trigger_neighbors k s = Inr s'"
  shows "nodes s' = nodes s" "edges s' = edges s" "prevNodeResults s' = prevNodeResults s"
    "nodeResults s' = nodeResults s" "edgeResults s' = edgeResults s"
    "adjacency s' = adjacency s"
  using assms by (auto simp: trigger_neighbors_def split: property.splits)

lemma store_output_frame:
  assumes "store_output k v s = Inr s'"
  shows "nodes s' = nodes s" "edges s' = edges s" "prevNodeResults s' = prevNodeResults s"
    "edgeResults s' = edgeResults s" "adjacency s' = adjacency s" "inDegree s' = inDegree s"
    "queue s' = queue s"
    "nodeResults s' = (if k = ''__proto__'' then nodeResults s else (nodeResults s)(k \<mapsto> v))"
  using assms by (auto simp: store_output_def split: if_splits val.splits)

text \<open>The shape of a visit that returns.\<close>

lemma visit_cases:
  assumes "visit rt k s = Some (Inr s')"
  obtains (skip) "find (\<lambda>n. node_id n = k) (nodes s) = None" "s' = s"
  | (idle) node where "find (\<lambda>n. node_id n = k) (nodes s) = Some node"
      "input_data rt s node = None"
      "trigger_neighbors k (record_edges rt s (filter (\<lambda>e. target e = k) (edges s))) = Inr s'"
  | (fed) node d v s2 where "find (\<lambda>n. node_id n = k) (nodes s) = Some node"
      "input_data rt s node = Some d"
      "node_output rt (record_edges rt s (filter (\<lambda>e. target e = k) (edges s))) node d = Some v"
      "store_output k v (record_edges rt s (filter (\<lambda>e. target e = k) (edges s))) = Inr s2"
      "trigger_neighbors k s2 = Inr s'"
  using assms by (auto simp: visit_def Let_def split: option.splits sum.splits)

lemma visit_frame:
  assumes "visit rt k s = Some (Inr s')"
  shows "nodes s' = nodes s" "edges s' = edges s" "prevNodeResults s' = prevNodeResults s"
    "adjacency s' = adjacency s"
proof -
  have "nodes s' = nodes s \<and> edges s' = edges s \<and> prevNodeResults s' = prevNodeResults s \<and>
        adjacency s' = adjacency s"
    using assms
  proof (cases rule: visit_cases)
    case skip
    then show ?thesis by simp
  next
    case (idle node)
    from trigger_neighbors_frame [OF idle(3)] show ?thesis by simp
  next
    case (fed node d v s2)
    from trigger_neighbors_frame [OF fed(5)] store_output_frame [OF fed(4)] show ?thesis by simp
  qed
  then show "nodes s' = nodes s" "edges s' = edges s" "prevNodeResults s' = prevNodeResults s"
    "adjacency s' = adjacency s" by simp_all
qed

text \<open>The output map after a visit: at most the visited id is written, with the output
  of the node that carries the id.\<close>

lemma visit_nodeResults:
  assumes "visit rt k s = Some (Inr s')"
  shows "nodeResults s' = nodeResults s \<or>
         (\<exists>node d v. find (\<lambda>n. node_id n = k) (nodes s) = Some node \<and>
            input_data rt s node = Some d \<and>
            node_output rt (record_edges rt s (filter (\<lambda>e. target e = k) (edges s))) node d = Some v \<and>
            nodeResults s' = (nodeResults s)(k \<mapsto> v))"
  using assms
proof (cases rule: visit_cases)
  case skip
  then show ?thesis by simp
next
  case (idle node)
  from trigger_neighbors_frame [OF idle(3)] show ?thesis by simp
next
  case (fed node d v s2)
  from trigger_neighbors_frame(4) [OF fed(5)] store_output_frame(8) [OF fed(4)]
  have "nodeResults s' = (if k = ''__proto__'' then nodeResults s else (nodeResults s)(k \<mapsto> v))"
    by simp
  with fed(1,2,3) show ?thesis by (cases "k = ''__proto__''") auto
qed

text \<open>Loop invariants: what holds on entry and is kept by every visit holds on exit.\<close>

lemma run_invariant:
  assumes "run rt s = Some (Inr t)" and "I s"
    and "\<And>s k rest s'. I s \<Longrightarrow> queue s = k # rest \<Longrightarrow>
           visit rt k (s\<lparr>queue := rest\<rparr>) = Some (Inr s') \<Longrightarrow> I s'"
  shows "I t \<and> queue t = []"
proof -
  have "rt = rt \<longrightarrow>
        (\<forall>t'. (Inr t :: failure + flow_state) = Inr t' \<longrightarrow> I s \<longrightarrow> I t' \<and> queue t' = [])"
  proof (rule run.raw_induct [where P = "\<lambda>rt' s r. rt' = rt \<longrightarrow>
            (\<forall>t'. r = Inr t' \<longrightarrow> I s \<longrightarrow> I t' \<and> queue t' = [])", OF _ assms(1)])
    fix run' :: "'a Runtime \<Rightarrow> flow_state \<Rightarrow> (failure + flow_state) option" and rt' s r
    assume IH: "\<And>rt' s r. run' rt' s = Some r \<Longrightarrow>
                 rt' = rt \<longrightarrow> (\<forall>t'. r = Inr t' \<longrightarrow> I s \<longrightarrow> I t' \<and> queue t' = [])"
      and body: "(case queue s of [] \<Rightarrow> Some (Inr s)
                  | nodeId # rest \<Rightarrow>
                      (case visit rt' nodeId (s\<lparr>queue := rest\<rparr>) of
                         None \<Rightarrow> None
                       | Some (Inl e) \<Rightarrow> Some (Inl e)
                       | Some (Inr s') \<Rightarrow> run' rt' s')) = Some r"
    show "rt' = rt \<longrightarrow> (\<forall>t'. r = Inr t' \<longrightarrow> I s \<longrightarrow> I t' \<and> queue t' = [])"
    proof (intro allI impI)
      fix t' assume rt: "rt' = rt" and r: "r = Inr t'" and I: "I s"
      show "I t' \<and> queue t' = []"
      proof (cases "queue s")
        case Nil
        with body r I show ?thesis by simp
      next
        case (Cons k rest)
        show ?thesis
        proof (cases "visit rt' k (s\<lparr>queue := rest\<rparr>)")
          case None
          with body Cons show ?thesis by simp
        next
          case (Some x)
          show ?thesis
          proof (cases x)
            case (Inl e)
            with body Cons Some r show ?thesis by simp
          next
            case (Inr s')
            with body Cons Some r have run: "run' rt' s' = Some (Inr t')" by simp
            from Some Inr rt have "visit rt k (s\<lparr>queue := rest\<rparr>) = Some (Inr s')" by simp
            from assms(3) [OF I Cons this] have "I s'" .
            with IH [OF run] rt show ?thesis by simp
          qed
        qed
      qed
    qed
  qed
  with assms(2) show ?thesis by simp
qed

text \<open>Looking a node up by its id, and the outputs seeded before the loop.\<close>

lemma find_node_distinct:
  "distinct (map node_id ns) \<Longrightarrow> n \<in> set ns \<Longrightarrow> find (\<lambda>m. node_id m = node_id n) ns = Some n"
  by (induction ns) (auto simp: rev_image_eqI)

lemma init_node_nodeResults:
  assumes "init_node n s = Inr s'"
  shows "nodeResults s' = (if is_source n then (nodeResults s)(node_id n \<mapsto> Str (node_pattern n))
                           else nodeResults s)"
  using assms by (auto simp: init_node_def Let_def split: if_splits)

lemma for_each_init_node_nodeResults:
  "for_each init_node ns s = Inr s' \<Longrightarrow> nodeResults s' k = Some v \<Longrightarrow>
     nodeResults s k = Some v \<or> (\<exists>n \<in> set ns. node_id n = k \<and> is_source n \<and> v = Str (node_pattern n))"
proof (induction ns arbitrary: s)
  case Nil
  then show ?case by simp
next
  case (Cons n ns)
  from Cons.prems(1) obtain t where t: "init_node n s = Inr t"
    and r: "for_each init_node ns t = Inr s'"
    by (auto split: sum.splits)
  from Cons.IH [OF r Cons.prems(2)] init_node_nodeResults [OF t] show ?case
    by (auto split: if_splits)
qed

lemma initial_nodeResults:
  assumes "initial_state ns es prev = Inr s" and "nodeResults s k = Some v"
  shows "\<exists>n \<in> set ns. node_id n = k \<and> is_source n \<and> v = Str (node_pattern n)"
proof -
  from assms(1) obtain s1 s2 where
    1: "for_each init_node ns
       \<lparr>nodeResults = Map.empty, edgeResults = Map.empty, nodes = ns, edges = es,
        prevNodeResults = prev, adjacency = Map.empty, inDegree = Map.empty, queue = []\<rparr> = Inr s1"
    and 2: "for_each init_edge es s1 = Inr s2"
    and 3: "s = s2\<lparr>queue := map node_id
            (filter (\<lambda>n. get_property (inDegree s2) (node_id n) = Own (Count 0)) ns)\<rparr>"
    by (rule initial_state_Inr)
  from for_each_init_edge_frame(6) [OF 2] 3 assms(2) have "nodeResults s1 k = Some v" by simp
  from for_each_init_node_nodeResults [OF 1 this] show ?thesis by simp
qed

text \<open>A call that returns has entered the loop and left it.\<close>

lemma final_state_Inr:
  assumes "final_state rt ns es prev = Some (Inr t)"
  obtains s0 where "initial_state ns es prev = Inr s0" and "run rt s0 = Some (Inr t)"
proof (cases "initial_state ns es prev")
  case (Inl e)
  with assms show ?thesis by (simp add: final_state_def)
next
  case (Inr s0)
  with assms that show ?thesis by (simp add: final_state_def)
qed

lemma executeFlow_Inr:
  assumes "executeFlow rt ns es prev = Some (Inr r)"
  obtains t where "final_state rt ns es prev = Some (Inr t)"
    and "r = \<lparr>nodeResults = nodeResults t, edgeResults = edgeResults t\<rparr>"
proof (cases "final_state rt ns es prev")
  case None
  with assms show ?thesis by (simp add: executeFlow_def)
next
  case (Some x)
  show ?thesis
  proof (cases x)
    case (Inl e)
    with Some assms show ?thesis by (simp add: executeFlow_def)
  next
    case (Inr t)
    with Some assms that show ?thesis by (simp add: executeFlow_def)
  qed
qed

lemma executeFlow_final:
  "final_state rt ns es prev = Some (Inr t) \<Longrightarrow>
     executeFlow rt ns es prev =
       Some (Inr \<lparr>nodeResults = nodeResults t, edgeResults = edgeResults t\<rparr>)"
  by (simp add: executeFlow_def)

lemma returns_returned: "returns x \<Longrightarrow> x = Some (Inr (returned x))"
  by (auto simp: returns_def returned_def split: option.splits sum.splits)

lemma returns_Inr [simp]: "returns (Some (Inr r))" "returned (Some (Inr r)) = r"
  by (simp_all add: returns_def returned_def)

section \<open>Fan-in aggregation\<close>

lemma fan_in_inputs_eq:
  "fan_in_inputs rt (nodeResults s) (filter (\<lambda>e. target e = node_id node) (edges s)) =
     incoming_outputs rt s node"
  by (simp add: fan_in_inputs_def incoming_outputs_def List.map_filter_def o_def conj_commute)







text \<open>
  Where no source of an edge is a name every object inherits, the outputs that reach a
  node are the entries of the sources of its incoming edges.
\<close>

lemma incoming_upstream:
  assumes "\<forall>e \<in> set (edges s). source e \<notin> set inherited_names"
  shows "incoming_outputs rt s n = upstream_outputs (nodeResults s) (edges s) (node_id n)"
proof -
  have r: "read_value rt (nodeResults s) (source e) = nodeResults s (source e)"
    if "e \<in> set (edges s)" for e
    using assms that by (simp add: read_value_plain)
  have "filter (\<lambda>e. target e = node_id n \<and> read_value rt (nodeResults s) (source e) \<noteq> None)
          (edges s) =
        filter (\<lambda>e. target e = node_id n \<and> nodeResults s (source e) \<noteq> None) (edges s)"
    by (rule filter_cong [OF refl]) (simp add: r)
  moreover have "map (\<lambda>e. the (read_value rt (nodeResults s) (source e)))
          (filter (\<lambda>e. target e = node_id n \<and> nodeResults s (source e) \<noteq> None) (edges s)) =
        map (\<lambda>e. the (nodeResults s (source e)))
          (filter (\<lambda>e. target e = node_id n \<and> nodeResults s (source e) \<noteq> None) (edges s))"
    by (rule map_cong [OF refl]) (simp add: r)
  ultimately show ?thesis by (simp add: incoming_outputs_def upstream_outputs_def)
qed



section \<open>The extract-field operation\<close>

lemma op_map_field:
  "op_map lines ps =
     Arr (map (field_at (str_or (param delimiter ps) '' '') (num_or (param fieldIndex ps) 1)) lines)"
  by (auto simp: op_map_def field_at_def Let_def js_index_def str_or_def nat_diff_distrib)

text \<open>
  Claim C9, as stated, fails where the configured index is 0: no field has the 1-based
  index 0, so the claim gives the empty string for the line \<open>a b\<close>, while the operation
  returns the first field \<open>a\<close>.
\<close>

theorem extract_field_index_zero_counterexample:
  "processData sample_runtime (Arr [''a b'']) MAP (Some (no_params\<lparr>fieldIndex := Some 0\<rparr>)) =
     Arr [''a''] \<and>
   field_at '' '' 0 ''a b'' = ''''"
  by (simp add: processData_def to_lines_def op_map_field field_at_def no_params_def param_def
      str_or_def num_or_def js_split_def)

text \<open>
  Claim C9, amended. For every input and parameter set, the extract-field operation
  returns for every line its field at the configured 1-based index, or the empty string
  where the line has no such field; the delimiter is a single space when none or the
  empty one is configured, and the index is 1 when none or 0 is configured.
\<close>

theorem extract_field:
  "processData rt input MAP ps =
     Arr (map (field_at
                (case param delimiter ps of
                   None \<Rightarrow> '' '' | Some d \<Rightarrow> if d = [] then '' '' else d)
                (case param fieldIndex ps of
                   None \<Rightarrow> 1 | Some k \<Rightarrow> if k = 0 then 1 else k))
           (to_lines input))"
  by (simp add: processData_def op_map_field str_or_def num_or_def)

section \<open>The Sequence matcher\<close>

lemma sequence_match_Str:
  "\<exists>q. sequence_match t (Str p) d = Str q \<and> length p \<le> length q \<and>
        length q \<le> max (length p) (length t) \<and> (length t \<le> length p \<longrightarrow> q = p)"
  by (auto simp: sequence_match_def js_length_def js_String_def Let_def)

text \<open>
  Claim C3, amended. For a Sequence node (of a node list with distinct ids, its own id
  not a name that every object inherits), a target pattern, a previous progress string
  \<open>p\<close> (the empty string when the node has no previous output) and any input, the
  progress \<open>q\<close> that one pass of \<open>executeFlow\<close> records for the node is at least as long
  as \<open>p\<close> and at most as long as the longer of \<open>p\<close> and the target pattern, so never
  longer than the target pattern when \<open>p\<close> was not; and when \<open>p\<close> is as long as the
  target pattern, or longer, \<open>q\<close> is \<open>p\<close> unchanged.
\<close>

theorem sequence_progress:
  assumes "distinct (map node_id ns)" and "node \<in> set ns" and "type (data node) = SEQUENCE"
    and "node_id node \<notin> set inherited_names"
    and "prev (node_id node) = Some (Str p) \<or> (prev (node_id node) = None \<and> p = [])"
    and "executeFlow rt ns es prev = Some (Inr r)" and "nodeResults r (node_id node) = Some v"
  shows "\<exists>q. v = Str q \<and> length p \<le> length q \<and>
              length q \<le> max (length p) (length (node_pattern node)) \<and>
              (length (node_pattern node) \<le> length p \<longrightarrow> q = p)"
proof -
  define good where "good v \<longleftrightarrow> (\<exists>q. v = Str q \<and> length p \<le> length q \<and>
              length q \<le> max (length p) (length (node_pattern node)) \<and>
              (length (node_pattern node) \<le> length p \<longrightarrow> q = p))" for v
  define I where "I s \<longleftrightarrow> nodes s = ns \<and> prevNodeResults s = prev \<and>
     (\<forall>v. nodeResults s (node_id node) = Some v \<longrightarrow> good v)" for s :: flow_state
  from assms(6) obtain t where ft: "final_state rt ns es prev = Some (Inr t)"
    and r: "r = \<lparr>nodeResults = nodeResults t, edgeResults = edgeResults t\<rparr>"
    by (rule executeFlow_Inr)
  from ft obtain s0 where s0: "initial_state ns es prev = Inr s0"
    and t: "run rt s0 = Some (Inr t)"
    by (rule final_state_Inr)
  have po: "prev_output rt prev (node_id node) = Str p"
    using assms(5) by (auto simp: prev_output_def read_value_plain [OF assms(4)])
  have "\<not> is_source node"
    using assms(3) by (simp add: is_source_def)
  have init: "I s0"
  proof -
    have "nodeResults s0 (node_id node) = None"
    proof (rule ccontr)
      assume "nodeResults s0 (node_id node) \<noteq> None"
      then obtain w where "nodeResults s0 (node_id node) = Some w" by auto
      from initial_nodeResults [OF s0 this] obtain n where
        n: "n \<in> set ns" "node_id n = node_id node" "is_source n" by auto
      with assms(1,2) have "n = node" by (meson distinct_map inj_onD)
      with n \<open>\<not> is_source node\<close> show False by simp
    qed
    with initial_state_frame [OF s0] show ?thesis by (simp add: I_def)
  qed
  have step: "I s'" if "I s" and "queue s = k # rest"
    and v: "visit rt k (s\<lparr>queue := rest\<rparr>) = Some (Inr s')" for s k rest s'
  proof -
    from that(1) have ns: "nodes s = ns" and pr: "prevNodeResults s = prev"
      and g: "\<forall>v. nodeResults s (node_id node) = Some v \<longrightarrow> good v"
      by (simp_all add: I_def)
    from visit_frame [OF v] ns pr have fr: "nodes s' = ns" "prevNodeResults s' = prev" by simp_all
    from visit_nodeResults [OF v] show ?thesis
    proof
      assume "nodeResults s' = nodeResults (s\<lparr>queue := rest\<rparr>)"
      with g fr show ?thesis by (simp add: I_def)
    next
      assume "\<exists>n d w. find (\<lambda>n. node_id n = k) (nodes (s\<lparr>queue := rest\<rparr>)) = Some n \<and>
            input_data rt (s\<lparr>queue := rest\<rparr>) n = Some d \<and>
            node_output rt (record_edges rt (s\<lparr>queue := rest\<rparr>) (filter (\<lambda>e. target e = k) (edges (s\<lparr>queue := rest\<rparr>)))) n d = Some w \<and>
            nodeResults s' = (nodeResults (s\<lparr>queue := rest\<rparr>))(k \<mapsto> w)"
      then obtain n d w where f: "find (\<lambda>n. node_id n = k) ns = Some n"
        and o: "node_output rt (record_edges rt (s\<lparr>queue := rest\<rparr>) (filter (\<lambda>e. target e = k) (edges s))) n d = Some w"
        and nr: "nodeResults s' = (nodeResults s)(k \<mapsto> w)"
        using ns by auto
      show ?thesis
      proof (cases "k = node_id node")
        case True
        with f find_node_distinct [OF assms(1,2)] have "n = node" by simp
        with o assms(3) pr po have "w = sequence_match (node_pattern node) (Str p) d"
          by (simp add: node_output_def)
        with sequence_match_Str [of "node_pattern node" p d] have "good w"
          by (simp add: good_def)
        with nr True fr show ?thesis by (simp add: I_def)
      next
        case False
        with nr g fr show ?thesis by (simp add: I_def)
      qed
    qed
  qed
  from run_invariant [of rt _ t I, OF t init step] have "I t" by simp
  with r assms(7) have "good v" by (simp add: I_def)
  then show ?thesis by (simp add: good_def)
qed

lemma seq_nodes_facts:
  "distinct (map node_id (seq_nodes b))" "seq_node \<in> set (seq_nodes b)"
  "type (data seq_node) = SEQUENCE" "node_id seq_node = ''seq''" "node_pattern seq_node = ''AB''"
  by (simp_all add: seq_nodes_def seq_node_def mk_node_def node_pattern_def param_def
      str_or_def no_params_def)

text \<open>
  The scenario of the specification: with the target \<open>AB\<close>, no previous progress and the
  buffer \<open>XBYA\<close> the progress becomes \<open>A\<close>; from there, with the buffer \<open>B\<close>, it becomes
  \<open>AB\<close>.
\<close>

lemma sequence_scenario:
  "nodeResults (returned (executeFlow sample_runtime (seq_nodes ''XBYA'') seq_edges first_pass))
     ''seq'' = Some (Str ''A'')"
  "nodeResults (returned (executeFlow sample_runtime (seq_nodes ''B'') seq_edges
     (seq_progress ''A''))) ''seq'' = Some (Str ''AB'')"
  by code_simp+

lemma sequence_scenario_returns:
  "returns (executeFlow sample_runtime (seq_nodes ''B'') seq_edges (seq_progress ''A''))"
  by code_simp

text \<open>
  Claim C3, amended, on the second pass of the scenario: from the progress \<open>A\<close> the pass
  records a progress that is no shorter than \<open>A\<close> and no longer than the target \<open>AB\<close>.
\<close>

theorem sequence_progress_witness:
  "\<exists>q. nodeResults (returned (executeFlow sample_runtime (seq_nodes ''B'') seq_edges
            (seq_progress ''A''))) ''seq'' = Some (Str q) \<and>
       length ''A'' \<le> length q \<and> length q \<le> length ''AB''"
proof -
  let ?r = "returned (executeFlow sample_runtime (seq_nodes ''B'') seq_edges (seq_progress ''A''))"
  have ret: "executeFlow sample_runtime (seq_nodes ''B'') seq_edges (seq_progress ''A'') =
      Some (Inr ?r)"
    using sequence_scenario_returns by (rule returns_returned)
  have plain: "node_id seq_node \<notin> set inherited_names"
    by (simp add: seq_nodes_facts inherited_names_def)
  have prev: "(seq_progress ''A'') (node_id seq_node) = Some (Str ''A'') \<or>
              ((seq_progress ''A'') (node_id seq_node) = None \<and> ''A'' = [])"
    by (simp add: seq_nodes_facts seq_progress_def)
  have out: "nodeResults ?r (node_id seq_node) = Some (Str ''AB'')"
    by (simp add: seq_nodes_facts sequence_scenario)
  from sequence_progress [OF seq_nodes_facts(1,2,3) plain prev ret out]
  show ?thesis by (simp add: seq_nodes_facts sequence_scenario)
qed

text \<open>
  Claim C3, as stated, fails for a previous progress that is longer than the target
  pattern, as it is left by a pass with a longer pattern: with the target \<open>AB\<close> and the
  previous progress \<open>ABCD\<close> the pass returns and records \<open>ABCD\<close>, which is longer than
  the target pattern.
\<close>

theorem sequence_progress_counterexample:
  "returns (executeFlow sample_runtime (seq_nodes ''x'') seq_edges (seq_progress ''ABCD'')) \<and>
   nodeResults (returned (executeFlow sample_runtime (seq_nodes ''x'') seq_edges
       (seq_progress ''ABCD''))) ''seq'' = Some (Str ''ABCD'') \<and>
   node_pattern seq_node = ''AB'' \<and>
   \<not> length ''ABCD'' \<le> length (node_pattern seq_node)"
  by code_simp

section \<open>The filter and substitute operations\<close>

lemma js_includes_sublist: "js_includes l sub \<longleftrightarrow> sublist sub l"
  by (induction l) (simp_all add: sublist_Cons_right)

lemma js_split_ne_not_Nil: "js_split_ne sep s \<noteq> []"
  by (induction sep s rule: js_split_ne.induct) (auto simp: neq_Nil_conv elim: cons_hd.elims)

lemma js_join_cons_hd: "xs \<noteq> [] \<Longrightarrow> js_join r (cons_hd c xs) = c # js_join r xs"
proof (cases xs)
  case Nil
  then show ?thesis by simp
next
  case (Cons x ys)
  then show ?thesis by (cases ys) simp_all
qed

lemma js_join_Nil_Cons: "xs \<noteq> [] \<Longrightarrow> js_join r (x # xs) = x @ r @ js_join r xs"
  by (cases xs) auto

lemma split_join_replace_all:
  "search \<noteq> [] \<Longrightarrow> js_join repl (js_split l search) = replace_all search repl l"
proof -
  assume ne: "search \<noteq> []"
  have "js_join repl (js_split_ne search l) = replace_all search repl l"
  proof (induction search l rule: js_split_ne.induct)
    case (1 sep)
    then show ?case by simp
  next
    case (2 sep c cs)
    show ?case
    proof (cases "sep \<noteq> [] \<and> prefix sep (c # cs)")
      case True
      with 2(1) show ?thesis
        by (simp add: js_join_Nil_Cons js_split_ne_not_Nil del: drop_Suc_Cons)
    next
      case False
      then have "js_split_ne sep (c # cs) = cons_hd c (js_split_ne sep cs)"
        and "replace_all sep repl (c # cs) = c # replace_all sep repl cs"
        by (simp_all only: js_split_ne.simps replace_all.simps if_False)
      with 2(2) [OF False] show ?thesis
        by (simp only: js_join_cons_hd [OF js_split_ne_not_Nil])
    qed
  qed
  with ne show ?thesis by (simp add: js_split_def)
qed

text \<open>
  Claim C6. In a runtime that accepts the empty pattern, as JavaScript does, the filter
  (grep) and substitute (sed) operations return a value for every input and every
  parameter set, whether or not the configured pattern compiles. Where the pattern is a
  valid regular expression, filter keeps exactly the lines the expression compiled with
  the flag \<open>i\<close> (ignore case) matches, and substitute replaces in every line what the
  expression compiled with the flag \<open>g\<close> (all occurrences) matches. Where it is not,
  filter keeps exactly the lines that contain the pattern as a substring, and substitute
  replaces the occurrences of the pattern as a substring.
\<close>

theorem filter_and_substitute:
  assumes "regexp_new rt [] ''g'' \<noteq> None"
  shows
  "(\<forall>regex. regexp_new rt (str_or (param pattern ps) '''') ''i'' = Some regex \<longrightarrow>
      processData rt input GREP ps = Arr (filter (regexp_test rt regex) (to_lines input))) \<and>
   (regexp_new rt (str_or (param pattern ps) '''') ''i'' = None \<longrightarrow>
      processData rt input GREP ps =
        Arr (filter (\<lambda>l. sublist (str_or (param pattern ps) '''') l) (to_lines input))) \<and>
   (\<forall>regex. regexp_new rt (str_or (param pattern ps) '''') ''g'' = Some regex \<longrightarrow>
      processData rt input REPLACE ps =
        Arr (map (\<lambda>l. regexp_replace rt l regex (str_or (param replacement ps) ''''))
               (to_lines input))) \<and>
   (regexp_new rt (str_or (param pattern ps) '''') ''g'' = None \<longrightarrow>
      processData rt input REPLACE ps =
        Arr (map (replace_all (str_or (param pattern ps) '''') (str_or (param replacement ps) ''''))
               (to_lines input)))"
proof (intro conjI allI impI)
  fix regex assume "regexp_new rt (str_or (param pattern ps) '''') ''i'' = Some regex"
  then show "processData rt input GREP ps = Arr (filter (regexp_test rt regex) (to_lines input))"
    by (simp add: processData_def op_grep_def)
next
  assume "regexp_new rt (str_or (param pattern ps) '''') ''i'' = None"
  then show "processData rt input GREP ps =
        Arr (filter (\<lambda>l. sublist (str_or (param pattern ps) '''') l) (to_lines input))"
    by (simp add: processData_def op_grep_def js_includes_sublist)
next
  fix regex assume "regexp_new rt (str_or (param pattern ps) '''') ''g'' = Some regex"
  then show "processData rt input REPLACE ps =
        Arr (map (\<lambda>l. regexp_replace rt l regex (str_or (param replacement ps) ''''))
               (to_lines input))"
    by (simp add: processData_def op_replace_def)
next
  assume a: "regexp_new rt (str_or (param pattern ps) '''') ''g'' = None"
  with assms have "str_or (param pattern ps) '''' \<noteq> []" by auto
  with a show "processData rt input REPLACE ps =
        Arr (map (replace_all (str_or (param pattern ps) '''') (str_or (param replacement ps) ''''))
               (to_lines input))"
    by (simp add: processData_def op_replace_def split_join_replace_all)
qed

lemma sample_runtime_patterns:
  "regexp_new sample_runtime [] ''g'' \<noteq> None"
  "regexp_new sample_runtime ''Error'' ''i'' = Some (''Error'', ''i'')"
  "regexp_new sample_runtime ''a('' ''i'' = None"
  "regexp_new sample_runtime ''b'' ''g'' = Some (''b'', ''g'')"
  "regexp_new sample_runtime ''a('' ''g'' = None"
  by (simp_all add: sample_runtime_def plain_pattern_def)

lemma sample_params:
  "str_or (param pattern (grep_params ''Error'')) '''' = ''Error''"
  "str_or (param pattern (grep_params ''a('')) '''' = ''a(''"
  "str_or (param pattern (sed_params ''b'' ''XY'')) '''' = ''b''"
  "str_or (param replacement (sed_params ''b'' ''XY'')) '''' = ''XY''"
  "str_or (param pattern (sed_params ''a('' ''['')) '''' = ''a(''"
  "str_or (param replacement (sed_params ''a('' ''['')) '''' = ''[''"
  by (simp_all add: str_or_def param_def grep_params_def sed_params_def no_params_def)

text \<open>
  Claim C6 on the sample runtime: \<open>Error\<close> compiles and is matched ignoring case, \<open>b\<close>
  compiles and is replaced everywhere; \<open>a(\<close> does not compile and is looked for, and
  replaced, as a substring.
\<close>

theorem filter_and_substitute_witness:
  "processData sample_runtime (Str (''ERROR 1'' @ [LF] @ ''Info 2'' @ [CR, LF] @ ''error 3'')) GREP
     (grep_params ''Error'') = Arr [''ERROR 1'', ''error 3''] \<and>
   processData sample_runtime (Arr [''f(a(x))'', ''A(b'', ''b'']) GREP (grep_params ''a('') =
     Arr [''f(a(x))''] \<and>
   processData sample_runtime (Arr [''a-b-c'', ''abc'']) REPLACE (sed_params ''b'' ''XY'') =
     Arr [''a-XY-c'', ''aXYc''] \<and>
   processData sample_runtime (Arr [''f(a(a(x))'', ''A(b'', ''b'']) REPLACE (sed_params ''a('' ''['') =
     Arr [''f([[x))'', ''A(b'', ''b'']"
proof -
  note inst = filter_and_substitute [OF sample_runtime_patterns(1)]
  have "processData sample_runtime (Str (''ERROR 1'' @ [LF] @ ''Info 2'' @ [CR, LF] @ ''error 3'')) GREP
     (grep_params ''Error'') =
     Arr (filter (regexp_test sample_runtime (''Error'', ''i''))
        (to_lines (Str (''ERROR 1'' @ [LF] @ ''Info 2'' @ [CR, LF] @ ''error 3''))))"
    using inst [of "grep_params ''Error''", THEN conjunct1] sample_runtime_patterns sample_params
    by simp
  moreover have "processData sample_runtime (Arr [''f(a(x))'', ''A(b'', ''b'']) GREP (grep_params ''a('') =
     Arr (filter (\<lambda>l. sublist ''a('' l) (to_lines (Arr [''f(a(x))'', ''A(b'', ''b''])))"
    using inst [of "grep_params ''a(''", THEN conjunct2, THEN conjunct1] sample_runtime_patterns
      sample_params
    by simp
  moreover have "processData sample_runtime (Arr [''a-b-c'', ''abc'']) REPLACE (sed_params ''b'' ''XY'') =
     Arr (map (\<lambda>l. regexp_replace sample_runtime l (''b'', ''g'') ''XY'')
        (to_lines (Arr [''a-b-c'', ''abc''])))"
    using inst [of "sed_params ''b'' ''XY''", THEN conjunct2, THEN conjunct2, THEN conjunct1]
      sample_runtime_patterns sample_params
    by simp
  moreover have "processData sample_runtime (Arr [''f(a(a(x))'', ''A(b'', ''b'']) REPLACE
     (sed_params ''a('' ''['') =
     Arr (map (replace_all ''a('' ''['') (to_lines (Arr [''f(a(a(x))'', ''A(b'', ''b''])))"
    using inst [of "sed_params ''a('' ''[''", THEN conjunct2, THEN conjunct2, THEN conjunct2]
      sample_runtime_patterns sample_params
    by simp
  ultimately show ?thesis
    by (simp add: to_lines_def LF_def CR_def sample_runtime_def ascii_lower_def js_split_def
        js_includes_sublist [symmetric])
qed

text \<open>
  The scenario of the specification: a source with the text \<open>ERROR 1\<close>, \<open>INFO 2\<close>,
  \<open>ERROR 3\<close> on three lines, a filter with the pattern \<open>ERROR\<close>, a sink. The sink receives
  the two \<open>ERROR\<close> lines.
\<close>

lemma error_filter_scenario:
  "nodeResults (returned (executeFlow sample_runtime
      [mk_node ''1'' INPUT None (grep_params (''ERROR 1'' @ [LF] @ ''INFO 2'' @ [LF] @ ''ERROR 3'')),
       mk_node ''2'' PROCESS (Some GREP) (grep_params ''ERROR''),
       mk_node ''3'' OUTPUT None None]
      [mk_edge ''e1'' ''1'' ''2'', mk_edge ''e2'' ''2'' ''3''] first_pass)) ''3'' =
     Some (Arr [''ERROR 1'', ''ERROR 3''])"
  by code_simp

section \<open>Join and split\<close>

lemma split_no_occurrence:
  "d \<noteq> [] \<Longrightarrow> \<not> sublist d l \<Longrightarrow> js_split_ne d l = [l]"
proof (induction l)
  case Nil
  then show ?case by simp
next
  case (Cons c cs)
  then have "\<not> prefix d (c # cs)" and "\<not> sublist d cs"
    by (auto simp: sublist_Cons_right)
  with Cons show ?case by simp
qed

lemma no_straddling_occurrence:
  assumes "unbordered d" and "\<not> sublist d l" and "l \<noteq> []"
  shows "\<not> prefix d (l @ d @ rest)"
proof
  assume p: "prefix d (l @ d @ rest)"
  show False
  proof (cases "length d \<le> length l")
    case True
    with p have "prefix d l" by (auto simp: prefix_append dest: prefix_length_le)
    then have "sublist d l" by (rule prefix_imp_sublist)
    with assms(2) show False by simp
  next
    case False
    define m where "m = length d - length l"
    from assms(3) have "0 < length l" by simp
    with False have m: "0 < m" "m < length d" "length d - m = length l"
      unfolding m_def by linarith+
    from p have "d = take (length d) (l @ d @ rest)"
      by (metis append_eq_conv_conj prefix_def)
    also have "\<dots> = l @ take m d"
      using False by (simp add: m_def)
    finally have d: "d = l @ take m d" .
    have "drop (length d - m) d = drop (length l) (l @ take m d)"
      using m(3) d by simp
    then have "drop (length d - m) d = take m d" by simp
    moreover from m have "m \<in> {1..<length d}" by simp
    with assms(1) have "take m d \<noteq> drop (length d - m) d"
      unfolding unbordered_def by (rule bspec)
    ultimately show False by simp
  qed
qed

lemma split_at_first_delimiter:
  assumes "d \<noteq> []" and "unbordered d"
  shows "\<not> sublist d l \<Longrightarrow> js_split_ne d (l @ d @ rest) = l # js_split_ne d rest"
proof (induction l)
  case Nil
  from assms(1) obtain c cs where e: "d @ rest = c # cs" by (cases d) auto
  have "prefix d (d @ rest)" and "drop (length d) (d @ rest) = rest" by simp_all
  then have "prefix d (c # cs)" and "drop (length d) (c # cs) = rest"
    unfolding e by simp_all
  with assms(1) have "js_split_ne d (c # cs) = [] # js_split_ne d rest"
    by (simp del: drop_Suc_Cons)
  then show ?case by (simp add: e)
next
  case (Cons c cs)
  from no_straddling_occurrence [OF assms(2) Cons.prems, of rest]
  have np: "\<not> prefix d (c # cs @ d @ rest)" by simp
  from Cons.prems have "\<not> sublist d cs" by (simp add: sublist_Cons_right)
  with Cons.IH have "js_split_ne d (cs @ d @ rest) = cs # js_split_ne d rest" by simp
  with np show ?case by simp
qed

lemma split_join:
  assumes "d \<noteq> []" and "unbordered d"
  shows "ls \<noteq> [] \<Longrightarrow> \<forall>l \<in> set ls. \<not> sublist d l \<Longrightarrow> js_split_ne d (js_join d ls) = ls"
proof (induction ls rule: induct_list012)
  case 1
  then show ?case by simp
next
  case (2 x)
  with assms(1) show ?case by (simp add: split_no_occurrence)
next
  case (3 x y ys)
  then have "js_split_ne d (js_join d (y # ys)) = y # ys" by simp
  with 3(4) show ?case
    by (simp add: split_at_first_delimiter [OF assms])
qed

text \<open>
  Claim C7, amended. For every non-empty line sequence and every delimiter \<open>d\<close> without a
  border (every single-character delimiter is one) such that no line contains \<open>d\<close>,
  applying the join operation with the delimiter \<open>d\<close> and then the split operation with
  the delimiter \<open>d\<close> restores the line sequence.
\<close>

theorem join_split_round_trip:
  assumes "ls \<noteq> []" and "\<forall>l \<in> set ls. \<not> sublist d l" and "unbordered d"
  shows "processData rt (processData rt (Arr ls) JOIN (delimiter_params d)) SPLIT
           (delimiter_params d) = Arr ls"
proof -
  from assms(1,2) have d: "d \<noteq> []" by (cases ls) auto
  then have "str_or (param delimiter (delimiter_params d)) x = d" for x
    by (simp add: str_or_def param_def delimiter_params_def no_params_def)
  then show ?thesis
    using d split_join [OF d assms(3,1,2)]
    by (simp add: processData_def to_lines_def op_split_def js_split_def)
qed

text \<open>
  Claim C7, as stated, fails for the empty line sequence, which comes back as one empty
  line, and for the delimiter \<open>aa\<close> with the lines \<open>a\<close> and \<open>b\<close>, neither of which
  contains it: the joined string \<open>aaab\<close> is split at its first two characters.
\<close>

theorem join_split_round_trip_counterexample:
  "processData sample_runtime (processData sample_runtime (Arr []) JOIN (delimiter_params '',''))
     SPLIT (delimiter_params '','') = Arr [''''] \<and>
   processData sample_runtime (processData sample_runtime (Arr [''a'', ''b'']) JOIN
     (delimiter_params ''aa'')) SPLIT (delimiter_params ''aa'') = Arr ['''', ''ab''] \<and>
   \<not> sublist ''aa'' ''a'' \<and> \<not> sublist ''aa'' ''b''"
  by code_simp

text \<open>Claim C7, amended, on three lines and a comma followed by a blank.\<close>

theorem join_split_round_trip_witness:
  "processData sample_runtime (processData sample_runtime (Arr [''a b'', '''', ''c'']) JOIN
     (delimiter_params '', '')) SPLIT (delimiter_params '', '') = Arr [''a b'', '''', ''c'']"
proof -
  have "[''a b'', '''', ''c''] \<noteq> []" by simp
  moreover have "\<forall>l \<in> set [''a b'', '''', ''c'']. \<not> sublist '', '' l"
    by (simp add: js_includes_sublist [symmetric])
  moreover have "unbordered '', ''" by code_simp
  ultimately show ?thesis by (rule join_split_round_trip)
qed

section \<open>Termination\<close>

subsection \<open>The batch loop\<close>

lemma whole_simps [simp]:
  "is_whole (whole a)" "integral (whole a) = a" "less_length (whole a) n \<longleftrightarrow> a < int n"
  by (simp_all add: whole_def is_whole_def integral_def truncated_def less_length_def)

lemma num_add_whole:
  "is_whole bs \<Longrightarrow> num_add rt (whole a) bs = whole (a + integral bs)"
  by (simp add: num_add_def)

lemma batch_loop_returns:
  assumes "is_whole bs" and "0 < integral bs"
  shows "\<exists>r. batch_loop rt lines bs (whole a) acc = Some r"
proof (induction "nat (int (length lines) - a)" arbitrary: a acc rule: less_induct)
  case less
  show ?case
  proof (cases "a < int (length lines)")
    case True
    with assms(2) have "nat (int (length lines) - (a + integral bs)) < nat (int (length lines) - a)"
      by linarith
    from less.hyps [OF this] True show ?thesis
      by (subst batch_loop.simps) (simp add: num_add_whole [OF assms(1)])
  next
    case False
    then show ?thesis by (subst batch_loop.simps) simp
  qed
qed

lemma batch_loop_diverges:
  assumes "is_whole bs" and "integral bs < 0" and "a < int (length lines)"
  shows "batch_loop rt lines bs (whole a) acc = None"
proof (rule ccontr)
  assume "batch_loop rt lines bs (whole a) acc \<noteq> None"
  then obtain r where r: "batch_loop rt lines bs (whole a) acc = Some r" by auto
  have "\<not> (is_whole bs \<and> integral bs < 0 \<and> (\<exists>a'. whole a = whole a' \<and> a' < int (length lines)))"
  proof (rule batch_loop.raw_induct
      [where P = "\<lambda>rt lines bs i acc r.
          \<not> (is_whole bs \<and> integral bs < 0 \<and> (\<exists>a. i = whole a \<and> a < int (length lines)))",
        OF _ r])
    fix f :: "'a Runtime \<Rightarrow> string list \<Rightarrow> number \<Rightarrow> number \<Rightarrow> string list \<Rightarrow> string list option"
      and rt lines bs i acc r
    assume IH: "\<And>rt lines bs i acc r. f rt lines bs i acc = Some r \<Longrightarrow>
        \<not> (is_whole bs \<and> integral bs < 0 \<and> (\<exists>a. i = whole a \<and> a < int (length lines)))"
      and body: "(if less_length i (length lines)
                  then f rt lines bs (num_add rt i bs)
                         (acc @ [batch_line (js_slice lines i (num_add rt i bs))])
                  else Some acc) = Some r"
    show "\<not> (is_whole bs \<and> integral bs < 0 \<and> (\<exists>a. i = whole a \<and> a < int (length lines)))"
    proof
      assume "is_whole bs \<and> integral bs < 0 \<and> (\<exists>a. i = whole a \<and> a < int (length lines))"
      then obtain a where a: "is_whole bs" "integral bs < 0" "i = whole a" "a < int (length lines)"
        by auto
      with body have "f rt lines bs (whole (a + integral bs))
          (acc @ [batch_line (js_slice lines i (num_add rt i bs))]) = Some r"
        by (simp add: num_add_whole)
      from IH [OF this] a show False by auto
    qed
  qed
  with assms show False by auto
qed

lemma processBatch_returns:
  "is_whole bs \<Longrightarrow> 0 < integral bs \<Longrightarrow> \<exists>v. processBatch rt input bs = Some v"
  using batch_loop_returns [of bs rt _ 0] by (auto simp: processBatch_def Let_def)

lemma truncated_whole:
  assumes "2 ^ e dvd m"
  shows "truncated m e = m div 2 ^ e" and "truncated m e = 0 \<longleftrightarrow> m = 0"
proof -
  from assms obtain q where q: "m = 2 ^ e * q" by (auto simp: dvd_def)
  have p: "(0::int) < 2 ^ e" by simp
  from q have d: "m div 2 ^ e = q" by simp
  from q have "- m = 2 ^ e * (- q)" by simp
  then have "(- m) div 2 ^ e = - q" by (metis nonzero_mult_div_cancel_left p less_irrefl)
  with d show "truncated m e = m div 2 ^ e" by (simp add: truncated_def)
  with d q show "truncated m e = 0 \<longleftrightarrow> m = 0" by simp
qed

lemma number_or_whole:
  assumes "case x of None \<Rightarrow> True | Some b \<Rightarrow> is_whole b \<and> 0 \<le> integral b"
  shows "is_whole (number_or x (whole 3)) \<and> 0 < integral (number_or x (whole 3))"
proof (cases x)
  case None
  then show ?thesis by (simp add: number_or_def)
next
  case (Some b)
  with assms have b: "is_whole b" "0 \<le> integral b" by simp_all
  then obtain m e where f: "b = Finite m e" "2 ^ e dvd m"
    by (cases b) (simp_all add: is_whole_def)
  show ?thesis
  proof (cases "m = 0")
    case True
    with Some f show ?thesis by (simp add: number_or_def)
  next
    case False
    with truncated_whole(2) [OF f(2)] f(1) have "integral b \<noteq> 0" by (simp add: integral_def)
    with b False Some f(1) show ?thesis by (simp add: number_or_def)
  qed
qed

lemma node_output_returns:
  assumes "type (data node) = BATCH \<longrightarrow>
     (case param batchSize (params (data node)) of
        None \<Rightarrow> True | Some b \<Rightarrow> is_whole b \<and> 0 \<le> integral b)"
  shows "\<exists>v. node_output rt s node d = Some v"
proof (cases "type (data node) = BATCH")
  case True
  with assms number_or_whole [of "param batchSize (params (data node))"]
  have "is_whole (number_or (param batchSize (params (data node))) (whole 3))"
    and "0 < integral (number_or (param batchSize (params (data node))) (whole 3))"
    by simp_all
  from processBatch_returns [OF this] True show ?thesis
    by (simp add: node_output_def)
next
  case False
  then show ?thesis
    by (cases "type (data node)") (simp_all add: node_output_def)
qed

lemma visit_returns:
  assumes "batch_sizes_ok (nodes s)"
  shows "\<exists>r. visit rt k s = Some r"
proof (cases "find (\<lambda>n. node_id n = k) (nodes s)")
  case None
  then show ?thesis by (simp add: visit_def)
next
  case (Some node)
  then have "node \<in> set (nodes s)" by (auto simp: find_Some_iff)
  with assms have ok: "type (data node) = BATCH \<longrightarrow>
     (case param batchSize (params (data node)) of
        None \<Rightarrow> True | Some b \<Rightarrow> is_whole b \<and> 0 \<le> integral b)"
    by (simp add: batch_sizes_ok_def)
  show ?thesis
  proof (cases "input_data rt s node")
    case None
    with Some show ?thesis by (simp add: visit_def)
  next
    case (Some d)
    from node_output_returns [OF ok] obtain v where
      "node_output rt (record_edges rt s (filter (\<lambda>e. target e = k) (edges s))) node d = Some v"
      by blast
    with Some \<open>find (\<lambda>n. node_id n = k) (nodes s) = Some node\<close> show ?thesis
      by (simp add: visit_def split: sum.splits)
  qed
qed

subsection \<open>The measure of the queue loop\<close>

lemma finite_neighbours: "finite (neighbours s)"
  by (auto simp: neighbours_def split: option.splits)

lemma finite_waiting: "finite (waiting s)"
  using finite_neighbours [of s] by (simp add: waiting_def)

lemma loop_measure_cong:
  "queue t = queue s \<Longrightarrow> nodes t = nodes s \<Longrightarrow> adjacency t = adjacency s \<Longrightarrow>
   inDegree t = inDegree s \<Longrightarrow> loop_measure t = loop_measure s"
  by (simp add: loop_measure_def waiting_def neighbours_def)

lemma neighbours_trigger [simp]: "neighbours (trigger k s) = neighbours s"
  by (simp add: neighbours_def)

lemma get_property_set_primitive:
  "get_property (set_primitive obj k v) j =
     (if j = k \<and> k \<noteq> ''__proto__'' then Own v else get_property obj j)"
  by (auto simp: get_property_def set_primitive_def)

lemma trigger_measure:
  assumes "k \<in> neighbours s"
  shows "loop_measure (trigger k s) \<le> loop_measure s"
proof (cases "get_property (inDegree s) k = Own (Count 1)")
  case True
  then have k: "k \<noteq> ''__proto__''" by (simp add: get_property_Own)
  from True k have q: "queue (trigger k s) = queue s @ [k]"
    by (simp add: trigger_def Let_def get_property_set_primitive decremented_def)
  from True k have w: "waiting (trigger k s) = waiting s - {k}"
    by (auto simp: trigger_def Let_def waiting_def neighbours_def get_property_set_primitive
        decremented_def)
  from True assms have "k \<in> waiting s" by (simp add: waiting_def)
  with finite_waiting [of s] have "card (waiting s - {k}) < card (waiting s)"
    by (rule card_Diff1_less)
  with q w show ?thesis by (simp add: loop_measure_def)
next
  case False
  then have q: "queue (trigger k s) = queue s"
    by (auto simp: trigger_def Let_def get_property_set_primitive decremented_def
        get_property_Own set_primitive_def split: property.splits degree.splits)
  from False have w: "waiting (trigger k s) \<subseteq> waiting s"
    by (auto simp: trigger_def Let_def waiting_def neighbours_def get_property_set_primitive
        decremented_def split: property.splits degree.splits if_splits)
  from card_mono [OF finite_waiting w] q show ?thesis by (simp add: loop_measure_def)
qed

lemma fold_trigger_measure:
  "set ks \<subseteq> neighbours s \<Longrightarrow> loop_measure (fold trigger ks s) \<le> loop_measure s"
proof (induction ks arbitrary: s)
  case Nil
  then show ?case by simp
next
  case (Cons k ks)
  then have "loop_measure (fold trigger ks (trigger k s)) \<le> loop_measure (trigger k s)"
    by simp
  also from Cons.prems have "\<dots> \<le> loop_measure s" by (simp add: trigger_measure)
  finally show ?case by simp
qed

lemma trigger_neighbors_measure:
  assumes "n \<in> set (nodes s)" and "node_id n = k" and "trigger_neighbors k s = Inr s'"
  shows "loop_measure s' \<le> loop_measure s"
proof (cases "get_property (adjacency s) k")
  case (Own ts)
  then have "adjacency s k = Some ts" by (simp add: get_property_Own)
  with assms(1,2) have "set ts \<subseteq> neighbours s"
    by (force simp: neighbours_def)
  from fold_trigger_measure [OF this] Own assms(3) show ?thesis
    by (simp add: trigger_neighbors_def)
next
  case Inherited
  with assms(3) show ?thesis by (simp add: trigger_neighbors_def)
next
  case Undefined
  with assms(3) show ?thesis by (simp add: trigger_neighbors_def)
qed

lemma visit_measure:
  assumes "visit rt k s = Some (Inr s')"
  shows "loop_measure s' \<le> loop_measure s"
  using assms
proof (cases rule: visit_cases)
  case skip
  then show ?thesis by simp
next
  case (idle node)
  let ?s1 = "record_edges rt s (filter (\<lambda>e. target e = k) (edges s))"
  from idle(1) have n: "node \<in> set (nodes ?s1)" "node_id node = k"
    by (auto simp: find_Some_iff)
  have "loop_measure ?s1 = loop_measure s"
    by (rule loop_measure_cong) simp_all
  with trigger_neighbors_measure [OF n idle(3)] show ?thesis by simp
next
  case (fed node d v s2)
  let ?s1 = "record_edges rt s (filter (\<lambda>e. target e = k) (edges s))"
  note fr = store_output_frame [OF fed(4)]
  from fed(1) fr(1) have n: "node \<in> set (nodes s2)" "node_id node = k"
    by (auto simp: find_Some_iff)
  have "loop_measure s2 = loop_measure s"
    by (rule loop_measure_cong) (simp_all add: fr)
  with trigger_neighbors_measure [OF n fed(5)] show ?thesis by simp
qed

lemma run_returns:
  "batch_sizes_ok (nodes s) \<Longrightarrow> \<exists>r. run rt s = Some r"
proof (induction "loop_measure s" arbitrary: s rule: less_induct)
  case less
  show ?case
  proof (cases "queue s")
    case Nil
    then show ?thesis by (subst run.simps) simp
  next
    case (Cons k rest)
    from less.prems have "batch_sizes_ok (nodes (s\<lparr>queue := rest\<rparr>))" by simp
    from visit_returns [OF this] obtain x where v: "visit rt k (s\<lparr>queue := rest\<rparr>) = Some x"
      by blast
    show ?thesis
    proof (cases x)
      case (Inl e)
      with v Cons show ?thesis by (subst run.simps) simp
    next
      case (Inr s')
      with v have v': "visit rt k (s\<lparr>queue := rest\<rparr>) = Some (Inr s')" by simp
      from visit_measure [OF v'] Cons have "loop_measure s' < loop_measure s"
        by (simp add: loop_measure_def waiting_def neighbours_def)
      moreover from visit_frame(1) [OF v'] less.prems have "batch_sizes_ok (nodes s')" by simp
      ultimately obtain r where "run rt s' = Some r" using less.hyps by blast
      with v' Cons show ?thesis by (subst run.simps) simp
    qed
  qed
qed

subsection \<open>No failure where the ids are not inherited names\<close>

lemma for_each_returns:
  assumes "\<And>x t. x \<in> set xs \<Longrightarrow> \<exists>t'. f x t = Inr t'"
  shows "\<exists>s'. for_each f xs s = Inr s'"
  using assms
proof (induction xs arbitrary: s)
  case Nil
  then show ?case by simp
next
  case (Cons x xs)
  from Cons.prems [of x s] obtain t where t: "f x s = Inr t" by auto
  from Cons.IH [of t] Cons.prems obtain s' where "for_each f xs t = Inr s'" by auto
  with t show ?case by simp
qed

lemma init_node_returns:
  "node_id n \<notin> set inherited_names \<Longrightarrow> \<exists>t. init_node n s = Inr t"
  by (auto simp: init_node_def Let_def inherited_names_def)

lemma init_edge_returns:
  "source e \<notin> set inherited_names \<Longrightarrow> \<exists>t. init_edge e s = Inr t"
  by (simp add: init_edge_def get_property_plain split: option.splits)

lemma initial_state_returns:
  assumes "plain_ids ns es"
  shows "\<exists>s. initial_state ns es prev = Inr s"
proof -
  let ?s0 = "\<lparr>nodeResults = Map.empty, edgeResults = Map.empty, nodes = ns, edges = es,
        prevNodeResults = prev, adjacency = Map.empty, inDegree = Map.empty, queue = []\<rparr>"
  from assms have "\<And>n t. n \<in> set ns \<Longrightarrow> \<exists>t'. init_node n t = Inr t'"
    by (simp add: plain_ids_def init_node_returns)
  from for_each_returns [of ns init_node ?s0, OF this] obtain s1 where
    1: "for_each init_node ns ?s0 = Inr s1" by auto
  from assms have "\<And>e t. e \<in> set es \<Longrightarrow> \<exists>t'. init_edge e t = Inr t'"
    by (simp add: plain_ids_def init_edge_returns)
  from for_each_returns [of es init_edge s1, OF this] obtain s2 where
    2: "for_each init_edge es s1 = Inr s2" by auto
  from 1 2 show ?thesis by (simp add: initial_state_def Let_def)
qed

text \<open>Before the loop, \<^verbatim>\<open>adjacency\<close> has come to own a list for every node.\<close>

lemma init_node_adjacency:
  assumes "init_node n s = Inr s'"
  shows "adjacency s' = (adjacency s)(node_id n \<mapsto> [])"
  using assms by (auto simp: init_node_def Let_def split: if_splits)

lemma init_edge_adjacency:
  assumes "init_edge e s = Inr s'" and "adjacency s k \<noteq> None"
  shows "adjacency s' k \<noteq> None"
  using assms by (auto simp: init_edge_def split: property.splits)

lemma for_each_init_node_owned:
  "for_each init_node ns s = Inr s' \<Longrightarrow>
     (\<forall>k. adjacency s k \<noteq> None \<longrightarrow> adjacency s' k \<noteq> None) \<and>
     (\<forall>n \<in> set ns. adjacency s' (node_id n) \<noteq> None)"
proof (induction ns arbitrary: s)
  case Nil
  then show ?case by simp
next
  case (Cons n ns)
  from Cons.prems obtain t where t: "init_node n s = Inr t"
    and r: "for_each init_node ns t = Inr s'"
    by (auto split: sum.splits)
  from Cons.IH [OF r] init_node_adjacency [OF t] show ?case by auto
qed

lemma for_each_init_edge_owned:
  assumes "for_each init_edge es s = Inr s'" and "adjacency s k \<noteq> None"
  shows "adjacency s' k \<noteq> None"
  by (rule for_each_invariant [OF assms(1), where P = "\<lambda>t. adjacency t k \<noteq> None"])
     (use assms(2) in \<open>auto dest: init_edge_adjacency\<close>)

lemma initial_state_owned:
  assumes "initial_state ns es prev = Inr s" and "n \<in> set ns"
  shows "adjacency s (node_id n) \<noteq> None"
proof -
  from assms(1) obtain s1 s2 where
    1: "for_each init_node ns
       \<lparr>nodeResults = Map.empty, edgeResults = Map.empty, nodes = ns, edges = es,
        prevNodeResults = prev, adjacency = Map.empty, inDegree = Map.empty, queue = []\<rparr> = Inr s1"
    and 2: "for_each init_edge es s1 = Inr s2"
    and 3: "s = s2\<lparr>queue := map node_id
            (filter (\<lambda>n. get_property (inDegree s2) (node_id n) = Own (Count 0)) ns)\<rparr>"
    by (rule initial_state_Inr)
  from for_each_init_node_owned [OF 1] assms(2) have "adjacency s1 (node_id n) \<noteq> None" by simp
  from for_each_init_edge_owned [OF 2 this] 3 show ?thesis by simp
qed

lemma visit_no_failure:
  assumes "\<forall>n \<in> set (nodes s). node_id n \<notin> set inherited_names \<and> adjacency s (node_id n) \<noteq> None"
  shows "visit rt k s \<noteq> Some (Inl e)"
proof (cases "find (\<lambda>n. node_id n = k) (nodes s)")
  case None
  then show ?thesis by (simp add: visit_def)
next
  case (Some node)
  then have "node \<in> set (nodes s)" "node_id node = k" by (auto simp: find_Some_iff)
  with assms have k: "k \<notin> set inherited_names" "adjacency s k \<noteq> None" by auto
  then obtain ts where ts: "adjacency s k = Some ts" by auto
  from k(1) have p: "k \<noteq> ''__proto__''" by (auto simp: inherited_names_def)
  have tn: "trigger_neighbors k t = Inr (fold trigger ts t)" if "adjacency t = adjacency s" for t
    using that ts p by (simp add: trigger_neighbors_def get_property_def)
  show ?thesis
    using Some p
    by (auto simp: visit_def Let_def store_output_def tn split: option.splits)
qed

lemma run_no_failure:
  assumes "run rt s = Some r"
    and "\<forall>n \<in> set (nodes s). node_id n \<notin> set inherited_names \<and> adjacency s (node_id n) \<noteq> None"
  shows "\<exists>t. r = Inr t"
proof -
  define J where "J s \<longleftrightarrow>
    (\<forall>n \<in> set (nodes s). node_id n \<notin> set inherited_names \<and> adjacency s (node_id n) \<noteq> None)"
    for s :: flow_state
  have "rt = rt \<longrightarrow> J s \<longrightarrow> (\<exists>t. r = Inr t)"
  proof (rule run.raw_induct [where P = "\<lambda>rt' s r. rt' = rt \<longrightarrow> J s \<longrightarrow> (\<exists>t. r = Inr t)",
        OF _ assms(1)])
    fix run' :: "'a Runtime \<Rightarrow> flow_state \<Rightarrow> (failure + flow_state) option" and rt' s r
    assume IH: "\<And>rt' s r. run' rt' s = Some r \<Longrightarrow> rt' = rt \<longrightarrow> J s \<longrightarrow> (\<exists>t. r = Inr t)"
      and body: "(case queue s of [] \<Rightarrow> Some (Inr s)
                  | nodeId # rest \<Rightarrow>
                      (case visit rt' nodeId (s\<lparr>queue := rest\<rparr>) of
                         None \<Rightarrow> None
                       | Some (Inl e) \<Rightarrow> Some (Inl e)
                       | Some (Inr s') \<Rightarrow> run' rt' s')) = Some r"
    show "rt' = rt \<longrightarrow> J s \<longrightarrow> (\<exists>t. r = Inr t)"
    proof (intro impI)
      assume rt: "rt' = rt" and J: "J s"
      show "\<exists>t. r = Inr t"
      proof (cases "queue s")
        case Nil
        with body show ?thesis by auto
      next
        case (Cons k rest)
        show ?thesis
        proof (cases "visit rt' k (s\<lparr>queue := rest\<rparr>)")
          case None
          with body Cons show ?thesis by simp
        next
          case (Some x)
          show ?thesis
          proof (cases x)
            case (Inl e)
            from J have "visit rt' k (s\<lparr>queue := rest\<rparr>) \<noteq> Some (Inl e)"
              by (intro visit_no_failure) (simp add: J_def)
            with Some Inl show ?thesis by simp
          next
            case (Inr s')
            with body Cons Some have run: "run' rt' s' = Some r" by simp
            from Some Inr have v: "visit rt' k (s\<lparr>queue := rest\<rparr>) = Some (Inr s')" by simp
            from visit_frame(1,4) [OF v] J have "J s'" by (simp add: J_def)
            with IH [OF run] rt show ?thesis by simp
          qed
        qed
      qed
    qed
  qed
  with assms(2) show ?thesis by (simp add: J_def)
qed

text \<open>
  Claim C2, amended. For every finite list of nodes in which every Batch node is
  configured with no batch size or with a whole number that is not negative (an absent
  size and 0 stand for 3), every finite list of edges such that no id of a node and no
  source of an edge is a name that every object inherits (\<^verbatim>\<open>constructor\<close>,
  \<^verbatim>\<open>toString\<close>, \<^verbatim>\<open>__proto__\<close> and the like), and every previous-output map,
  \<open>executeFlow\<close> terminates and returns a result pair: the queue loop drains, and
  every operator returns.
\<close>

theorem executeFlow_returns:
  assumes "batch_sizes_ok ns" and "plain_ids ns es"
  shows "\<exists>r. executeFlow rt ns es prev = Some (Inr r)"
proof -
  from initial_state_returns [OF assms(2)] obtain s0 where
    s0: "initial_state ns es prev = Inr s0" by blast
  note fr = initial_state_frame [OF s0]
  from assms(1) fr(1) have "batch_sizes_ok (nodes s0)" by simp
  from run_returns [OF this] obtain x where x: "run rt s0 = Some x" by blast
  have "\<forall>n \<in> set (nodes s0). node_id n \<notin> set inherited_names \<and> adjacency s0 (node_id n) \<noteq> None"
    using assms(2) fr(1) initial_state_owned [OF s0] by (simp add: plain_ids_def)
  from run_no_failure [OF x this] obtain t where "x = Inr t" by blast
  with x s0 have "final_state rt ns es prev = Some (Inr t)" by (simp add: final_state_def)
  then show ?thesis by (simp add: executeFlow_final)
qed

text \<open>
  The scenario of the specification: a Batch node of size 2 over the lines \<open>a\<close>, \<open>b\<close>,
  \<open>c\<close> describes a batch of two and a batch of one.
\<close>

lemma batch_scenario:
  "nodeResults (returned (executeFlow sample_runtime (batch_nodes (whole 2)) batch_edges
     first_pass)) ''batch'' = Some (Arr [''[Batch of 2]: a, b'', ''[Batch of 1]: c''])"
  by code_simp

text \<open>Claim C2, amended, on a source feeding a Batch node of size 2.\<close>

theorem executeFlow_returns_witness:
  "\<exists>r. executeFlow sample_runtime (batch_nodes (whole 2)) batch_edges first_pass = Some (Inr r)"
proof -
  have "batch_sizes_ok (batch_nodes (whole 2))"
    by (simp add: batch_sizes_ok_def batch_nodes_def mk_node_def param_def no_params_def)
  moreover have "plain_ids (batch_nodes (whole 2)) batch_edges"
    by (simp add: plain_ids_def batch_nodes_def batch_edges_def mk_node_def mk_edge_def
        inherited_names_def)
  ultimately show ?thesis by (rule executeFlow_returns)
qed

text \<open>
  Claim C2, as stated, fails for a negative batch size: with the batch size \<open>-1\<close> and
  three lines to batch, the index of the batch loop only decreases, the condition of
  the loop stays true, and \<open>executeFlow\<close> does not return. It also fails for an edge
  whose source is no node but a name every object inherits: for the source
  \<^verbatim>\<open>constructor\<close> line 30 finds the inherited function, line 31 calls its \<^verbatim>\<open>push\<close>,
  and the call ends with a \<^verbatim>\<open>TypeError\<close>.
\<close>

theorem executeFlow_returns_counterexample:
  "executeFlow sample_runtime (batch_nodes (whole (- 1))) batch_edges first_pass = None \<and>
   failure_of (executeFlow sample_runtime sink_nodes [sink_edge, inherited_source_edge]
     first_pass) = Some TypeError"
proof
  have d: "batch_loop rt lines (Finite (- 1) 0) (Finite 0 0) acc = None" if "lines \<noteq> []"
    for rt :: "(string \<times> string) Runtime" and lines acc
    using batch_loop_diverges [of "Finite (- 1) 0" 0 lines rt acc] that
    by (simp add: whole_def is_whole_def integral_def truncated_def)
  show "executeFlow sample_runtime (batch_nodes (whole (- 1))) batch_edges first_pass = None"
    by (simp add: executeFlow_def final_state_def initial_state_def batch_nodes_def batch_edges_def
        mk_node_def mk_edge_def grep_params_def no_params_def init_node_def init_edge_def
        count_edge_def incremented_def get_property_def set_primitive_def inherited_names_def
        is_source_def node_pattern_def str_or_def number_or_def param_def run.simps visit_def
        input_data_def record_edges_eq aggregate_def fan_in_inputs_def List.map_filter_def
        read_value_def whole_def first_pass_def store_output_def decremented_def
        node_output_def processBatch_def trigger_neighbors_def trigger_def LF_def CR_def d)
  show "failure_of (executeFlow sample_runtime sink_nodes [sink_edge, inherited_source_edge]
     first_pass) = Some TypeError"
    by code_simp
qed

section \<open>The schedule of the queue loop\<close>

subsection \<open>The state on entry to the loop\<close>

lemma init_node_maps:
  assumes "init_node n s = Inr t"
  shows "node_id n \<noteq> ''__proto__''"
    and "adjacency t = (adjacency s)(node_id n \<mapsto> [])"
    and "inDegree t = (inDegree s)(node_id n \<mapsto> Count 0)"
  using assms by (auto simp: init_node_def Let_def split: if_splits)

lemma for_each_init_node_maps:
  "for_each init_node ns s = Inr s' \<Longrightarrow>
     ''__proto__'' \<notin> node_ids ns \<and>
     (\<forall>k. adjacency s' k = (if k \<in> node_ids ns then Some [] else adjacency s k)) \<and>
     (\<forall>k. inDegree s' k = (if k \<in> node_ids ns then Some (Count 0) else inDegree s k))"
proof (induction ns arbitrary: s)
  case Nil
  then show ?case by (simp add: node_ids_def)
next
  case (Cons n ns)
  from Cons.prems obtain t where t: "init_node n s = Inr t"
    and r: "for_each init_node ns t = Inr s'"
    by (auto split: sum.splits)
  from Cons.IH [OF r] init_node_maps [OF t] show ?case
    by (auto simp: node_ids_def)
qed

lemma find_snoc:
  "find P (xs @ [x]) = (case find P xs of Some y \<Rightarrow> Some y | None \<Rightarrow> if P x then Some x else None)"
  by (induction xs) simp_all

lemma for_each_init_node_results:
  "for_each init_node ns s = Inr s' \<Longrightarrow>
     nodeResults s' k =
       (case find (\<lambda>n. node_id n = k \<and> is_source n) (rev ns) of
          Some n \<Rightarrow> Some (Str (node_pattern n))
        | None \<Rightarrow> nodeResults s k)"
proof (induction ns arbitrary: s)
  case Nil
  then show ?case by simp
next
  case (Cons n ns)
  from Cons.prems obtain t where t: "init_node n s = Inr t"
    and r: "for_each init_node ns t = Inr s'"
    by (auto split: sum.splits)
  from Cons.IH [OF r] init_node_nodeResults [OF t] show ?case
    by (auto simp: find_snoc split: option.splits)
qed

lemma find_unique:
  assumes "x \<in> set xs" and "P x" and "\<And>y. y \<in> set xs \<Longrightarrow> P y \<Longrightarrow> y = x"
  shows "find P xs = Some x"
  using assms
proof (induction xs)
  case Nil
  then show ?case by simp
next
  case (Cons a xs)
  show ?case
  proof (cases "P a")
    case True
    with Cons.prems(3) [of a] have "a = x" by simp
    with True show ?thesis by simp
  next
    case False
    with Cons.prems(1,2) have "x \<in> set xs" by auto
    from Cons.IH [OF this Cons.prems(2)] Cons.prems(3) False show ?thesis by simp
  qed
qed

lemma same_id_same_node:
  assumes "distinct (map node_id ns)" and "n \<in> set ns" and "m \<in> set ns"
    and "node_id m = node_id n"
  shows "m = n"
proof -
  from assms(1) have "inj_on node_id (set ns)" by (simp add: distinct_map)
  from inj_onD [OF this assms(4,3,2)] show ?thesis .
qed

lemma find_source_distinct:
  assumes "distinct (map node_id ns)" and "n \<in> set ns"
  shows "find (\<lambda>m. node_id m = node_id n \<and> is_source m) (rev ns) =
           (if is_source n then Some n else None)"
proof (cases "is_source n")
  case True
  have "find (\<lambda>m. node_id m = node_id n \<and> is_source m) (rev ns) = Some n"
  proof (rule find_unique)
    show "n \<in> set (rev ns)" using assms(2) by simp
    show "node_id n = node_id n \<and> is_source n" using True by simp
    fix y assume "y \<in> set (rev ns)" and "node_id y = node_id n \<and> is_source y"
    then show "y = n" using same_id_same_node [OF assms, of y] by simp
  qed
  with True show ?thesis by simp
next
  case False
  have "\<not> (node_id m = node_id n \<and> is_source m)" if "m \<in> set ns" for m
    using same_id_same_node [OF assms that] False by auto
  with False show ?thesis by (simp add: find_None_iff)
qed

lemma init_edge_maps:
  assumes "init_edge e s = Inr t"
  shows "adjacency t u =
           (if u = source e then map_option (\<lambda>ts. ts @ [target e]) (adjacency s u)
            else adjacency s u)"
    and "k \<noteq> ''__proto__'' \<Longrightarrow> inDegree s k = Some (Count d) \<Longrightarrow>
           inDegree t k = Some (Count (if k = target e then d + 1 else d))"
proof -
  show "adjacency t u =
           (if u = source e then map_option (\<lambda>ts. ts @ [target e]) (adjacency s u)
            else adjacency s u)"
    using assms
    by (auto simp: init_edge_def get_property_def split: property.splits option.splits if_splits)
  show "inDegree t k = Some (Count (if k = target e then d + 1 else d))"
    if "k \<noteq> ''__proto__''" "inDegree s k = Some (Count d)"
    using assms that
    by (auto simp: init_edge_def count_edge_def set_primitive_def incremented_def
        get_property_def split: property.splits)
qed

lemma for_each_init_edge_adjacency:
  "for_each init_edge es s = Inr s' \<Longrightarrow>
     adjacency s' u = map_option (\<lambda>ts. ts @ outgoing es u) (adjacency s u)"
proof (induction es arbitrary: s)
  case Nil
  then show ?case by (simp add: outgoing_def option.map_ident)
next
  case (Cons e es)
  from Cons.prems obtain t where t: "init_edge e s = Inr t"
    and r: "for_each init_edge es t = Inr s'"
    by (auto split: sum.splits)
  from Cons.IH [OF r] init_edge_maps(1) [OF t, of u] show ?case
    by (cases "adjacency s u") (auto simp: outgoing_def)
qed

lemma for_each_init_edge_inDegree:
  "for_each init_edge es s = Inr s' \<Longrightarrow> k \<noteq> ''__proto__'' \<Longrightarrow> inDegree s k = Some (Count d) \<Longrightarrow>
     inDegree s' k = Some (Count (d + int (length (filter (\<lambda>e. target e = k) es))))"
proof (induction es arbitrary: s d)
  case Nil
  then show ?case by simp
next
  case (Cons e es)
  from Cons.prems(1) obtain t where t: "init_edge e s = Inr t"
    and r: "for_each init_edge es t = Inr s'"
    by (auto split: sum.splits)
  from init_edge_maps(2) [OF t Cons.prems(2,3)]
  have "inDegree t k = Some (Count (if k = target e then d + 1 else d))" .
  from Cons.IH [OF r Cons.prems(2) this] show ?case by auto
qed

text \<open>
  The state in which the loop is entered, for a node list with unique ids: no node has
  the id \<^verbatim>\<open>__proto__\<close>; \<^verbatim>\<open>adjacency\<close> owns the list of the targets of every node; the
  count of a node is its in-degree; the queue holds the nodes of in-degree zero; and
  the outputs are the seeds.
\<close>

lemma initial_facts:
  assumes "initial_state ns es prev = Inr s"
  shows "''__proto__'' \<notin> node_ids ns"
    and "adjacency s = (\<lambda>u. if u \<in> node_ids ns then Some (outgoing es u) else None)"
    and "k \<in> node_ids ns \<Longrightarrow> inDegree s k = Some (Count (int (pending {} es k)))"
    and "queue s = map node_id (filter (\<lambda>n. pending {} es (node_id n) = 0) ns)"
    and "distinct (map node_id ns) \<Longrightarrow> n \<in> set ns \<Longrightarrow> nodeResults s (node_id n) = seed_of n"
    and "k \<notin> node_ids ns \<Longrightarrow> nodeResults s k = None"
proof -
  from assms obtain s1 s2 where
    1: "for_each init_node ns
       \<lparr>nodeResults = Map.empty, edgeResults = Map.empty, nodes = ns, edges = es,
        prevNodeResults = prev, adjacency = Map.empty, inDegree = Map.empty, queue = []\<rparr> = Inr s1"
    and 2: "for_each init_edge es s1 = Inr s2"
    and 3: "s = s2\<lparr>queue := map node_id
            (filter (\<lambda>n. get_property (inDegree s2) (node_id n) = Own (Count 0)) ns)\<rparr>"
    by (rule initial_state_Inr)
  note m = for_each_init_node_maps [OF 1]
  from m show p: "''__proto__'' \<notin> node_ids ns" by simp
  from m have a1: "adjacency s1 u = (if u \<in> node_ids ns then Some [] else None)" for u by simp
  from m have d1: "inDegree s1 u = (if u \<in> node_ids ns then Some (Count 0) else None)" for u
    by simp
  show "adjacency s = (\<lambda>u. if u \<in> node_ids ns then Some (outgoing es u) else None)"
    by (rule ext) (simp add: 3 for_each_init_edge_adjacency [OF 2] a1)
  have d2: "inDegree s2 j = Some (Count (int (pending {} es j)))" if "j \<in> node_ids ns" for j
  proof -
    from that p have "j \<noteq> ''__proto__''" by auto
    moreover from that have "inDegree s1 j = Some (Count 0)" by (simp add: d1)
    ultimately show ?thesis
      using for_each_init_edge_inDegree [OF 2, of j 0] by (simp add: pending_def)
  qed
  then show "inDegree s k = Some (Count (int (pending {} es k)))" if "k \<in> node_ids ns"
    using that by (simp add: 3)
  have "filter (\<lambda>n. get_property (inDegree s2) (node_id n) = Own (Count 0)) ns =
        filter (\<lambda>n. pending {} es (node_id n) = 0) ns"
  proof (rule filter_cong [OF refl])
    fix n assume "n \<in> set ns"
    then have n: "node_id n \<in> node_ids ns" by (simp add: node_ids_def)
    with p have "node_id n \<noteq> ''__proto__''" by auto
    with d2 [OF n]
    show "(get_property (inDegree s2) (node_id n) = Own (Count 0)) =
          (pending {} es (node_id n) = 0)"
      by (simp add: get_property_Own)
  qed
  then show "queue s = map node_id (filter (\<lambda>n. pending {} es (node_id n) = 0) ns)"
    by (simp add: 3)
  have r: "nodeResults s j =
       (case find (\<lambda>n. node_id n = j \<and> is_source n) (rev ns) of
          Some n \<Rightarrow> Some (Str (node_pattern n))
        | None \<Rightarrow> None)" for j
    using for_each_init_node_results [OF 1, of j] for_each_init_edge_frame(6) [OF 2]
    by (simp add: 3 split: option.splits)
  show "nodeResults s (node_id n) = seed_of n" if "distinct (map node_id ns)" "n \<in> set ns"
    using find_source_distinct [OF that] by (simp add: r seed_of_def)
  show "nodeResults s k = None" if "k \<notin> node_ids ns"
  proof -
    from that have "find (\<lambda>n. node_id n = k \<and> is_source n) (rev ns) = None"
      by (auto simp: find_None_iff node_ids_def)
    then show ?thesis by (simp add: r)
  qed
qed

subsection \<open>Triggering the neighbours\<close>

lemma trigger_inDegree:
  "j \<noteq> t \<Longrightarrow> inDegree (trigger t s) j = inDegree s j"
  "t \<noteq> ''__proto__'' \<Longrightarrow> inDegree s t = Some (Count d) \<Longrightarrow>
     inDegree (trigger t s) t = Some (Count (d - 1))"
  by (simp_all add: trigger_def Let_def set_primitive_def decremented_def get_property_def)

lemma trigger_queue:
  "queue (trigger t s) =
     queue s @ (if get_property (inDegree s) t = Own (Count 1) then [t] else [])"
proof (cases "t = ''__proto__''")
  case True
  then show ?thesis by (simp add: trigger_def Let_def set_primitive_def get_property_def)
next
  case False
  then show ?thesis
    by (cases "get_property (inDegree s) t")
      (auto simp: trigger_def Let_def get_property_set_primitive decremented_def
        split: degree.splits)
qed

text \<open>
  The count of a node after its neighbours-to-be have been triggered, and how often the
  node has been pushed: once, if its count has reached zero, and not at all otherwise.
\<close>

lemma fold_trigger_at:
  "j \<noteq> ''__proto__'' \<Longrightarrow> inDegree s j = Some (Count d) \<Longrightarrow>
     inDegree (fold trigger ts s) j = Some (Count (d - int (count_list ts j))) \<and>
     count_list (queue (fold trigger ts s)) j =
       count_list (queue s) j + (if 0 < d \<and> d \<le> int (count_list ts j) then 1 else 0)"
proof (induction ts arbitrary: s d)
  case Nil
  then show ?case by simp
next
  case (Cons t ts)
  show ?case
  proof (cases "t = j")
    case True
    from trigger_inDegree(2) [of j s d] Cons.prems
    have d1: "inDegree (trigger j s) j = Some (Count (d - 1))" by simp
    from Cons.prems have q1: "count_list (queue (trigger j s)) j =
        count_list (queue s) j + (if d = 1 then 1 else 0)"
      by (simp add: trigger_queue get_property_Own)
    from Cons.IH [OF Cons.prems(1) d1] True q1 show ?thesis by auto
  next
    case False
    then have d1: "inDegree (trigger t s) j = Some (Count d)"
      using Cons.prems by (simp add: trigger_inDegree(1))
    from False have q1: "count_list (queue (trigger t s)) j = count_list (queue s) j"
      by (simp add: trigger_queue)
    from Cons.IH [OF Cons.prems(1) d1] False q1 show ?thesis by simp
  qed
qed

subsection \<open>Counting the pending edges\<close>

lemma pending_zero_iff:
  "pending D es k = 0 \<longleftrightarrow> (\<forall>e \<in> set es. target e = k \<longrightarrow> source e \<in> D)"
  by (auto simp: pending_def filter_empty_conv)

lemma count_list_outgoing:
  "count_list (outgoing es k) j = length (filter (\<lambda>e. source e = k \<and> target e = j) es)"
  by (induction es) (auto simp: outgoing_def)

lemma pending_insert:
  "k \<notin> D \<Longrightarrow> pending D es j = pending (insert k D) es j + count_list (outgoing es k) j"
  unfolding count_list_outgoing by (induction es) (auto simp: pending_def)

subsection \<open>What the output of a node depends on\<close>

lemma aggregate_None_iff: "aggregate xs = None \<longleftrightarrow> xs = []"
  by (cases xs) (auto simp: aggregate_def)

lemma node_output_cong:
  "prevNodeResults t = prevNodeResults s \<Longrightarrow> node_output rt t n d = node_output rt s n d"
  by (cases "type (data n)") (simp_all add: node_output_def)

lemma read_value_cong: "m k = m' k \<Longrightarrow> read_value rt m k = read_value rt m' k"
  by (simp add: read_value_def get_property_def)

lemma incoming_outputs_cong:
  assumes "edges t = edges s"
    and "\<And>e. e \<in> set (edges s) \<Longrightarrow> target e = node_id n \<Longrightarrow>
           nodeResults t (source e) = nodeResults s (source e)"
  shows "incoming_outputs rt t n = incoming_outputs rt s n"
proof -
  have r: "read_value rt (nodeResults t) (source e) = read_value rt (nodeResults s) (source e)"
    if "e \<in> set (edges s)" "target e = node_id n" for e
    using assms(2) [OF that] by (rule read_value_cong)
  have "filter (\<lambda>e. target e = node_id n \<and> read_value rt (nodeResults t) (source e) \<noteq> None)
          (edges s) =
        filter (\<lambda>e. target e = node_id n \<and> read_value rt (nodeResults s) (source e) \<noteq> None)
          (edges s)"
    by (rule filter_cong [OF refl]) (auto simp: r)
  moreover have "map (\<lambda>e. the (read_value rt (nodeResults t) (source e)))
          (filter (\<lambda>e. target e = node_id n \<and> read_value rt (nodeResults s) (source e) \<noteq> None)
             (edges s)) =
        map (\<lambda>e. the (read_value rt (nodeResults s) (source e)))
          (filter (\<lambda>e. target e = node_id n \<and> read_value rt (nodeResults s) (source e) \<noteq> None)
             (edges s))"
    by (rule map_cong [OF refl]) (simp add: r)
  ultimately show ?thesis by (simp add: incoming_outputs_def assms(1))
qed

lemma settled_cong:
  assumes "edges t = edges s" and "prevNodeResults t = prevNodeResults s"
    and "nodeResults t (node_id n) = nodeResults s (node_id n)"
    and "\<And>e. e \<in> set (edges s) \<Longrightarrow> target e = node_id n \<Longrightarrow>
           nodeResults t (source e) = nodeResults s (source e)"
  shows "settled rt t n = settled rt s n"
proof -
  have "incoming_outputs rt t n = incoming_outputs rt s n"
    by (rule incoming_outputs_cong [OF assms(1,4)])
  moreover have "node_output rt t n d = node_output rt s n d" for d
    by (rule node_output_cong [OF assms(2)])
  ultimately show ?thesis
    by (simp add: settled_def assms(3) cong: option.case_cong)
qed

lemma input_data_eq:
  "input_data rt s n =
     (if filter (\<lambda>e. target e = node_id n) (edges s) \<noteq> [] then aggregate (incoming_outputs rt s n)
      else if is_source n then read_value rt (nodeResults s) (node_id n) else None)"
  by (simp add: input_data_def Let_def fan_in_inputs_eq)

lemma incoming_outputs_Nil:
  "filter (\<lambda>e. target e = node_id n) (edges s) = [] \<Longrightarrow> incoming_outputs rt s n = []"
  by (auto simp: incoming_outputs_def filter_empty_conv)

text \<open>The visit of a node: the body up to the trigger of the neighbours, then the trigger.\<close>

lemma visit_found:
  assumes "find (\<lambda>n. node_id n = k) (nodes s) = Some n" and "visit rt k s = Some (Inr s')"
    and "k \<noteq> ''__proto__''"
  shows "\<exists>s2. trigger_neighbors k s2 = Inr s' \<and> queue s2 = queue s \<and> inDegree s2 = inDegree s \<and>
           adjacency s2 = adjacency s \<and> nodes s2 = nodes s \<and> edges s2 = edges s \<and>
           prevNodeResults s2 = prevNodeResults s \<and>
           (input_data rt s n = None \<longrightarrow> nodeResults s2 = nodeResults s) \<and>
           (\<forall>d. input_data rt s n = Some d \<longrightarrow>
              (\<exists>v. node_output rt s n d = Some v \<and> nodeResults s2 = (nodeResults s)(k \<mapsto> v)))"
  using assms(2)
proof (cases rule: visit_cases)
  case skip
  with assms(1) show ?thesis by simp
next
  case (idle node)
  with assms(1) have "node = n" by simp
  with idle show ?thesis
    by (intro exI [where x = "record_edges rt s (filter (\<lambda>e. target e = k) (edges s))"]) simp
next
  case (fed node d v s2)
  let ?s1 = "record_edges rt s (filter (\<lambda>e. target e = k) (edges s))"
  from fed(1) assms(1) have n: "node = n" by simp
  note fr = store_output_frame [OF fed(4)]
  from fed(3) n have "node_output rt s n d = Some v"
    by (simp add: node_output_cong [of ?s1 s])
  with fed(2,5) n fr assms(3) show ?thesis
    by (intro exI [where x = s2]) simp
qed

subsection \<open>The invariant of the queue loop\<close>

lemma settled_queue [simp]: "settled rt (s\<lparr>queue := q\<rparr>) n = settled rt s n"
  by (rule settled_cong) simp_all

lemma count_list_distinct: "distinct xs \<Longrightarrow> count_list xs k \<le> 1"
  by (induction xs) (auto simp: count_list_0_iff)

lemma count_list_map_filter_distinct:
  "distinct (map f xs) \<Longrightarrow> count_list (map f (filter P xs)) k \<le> 1"
  by (rule count_list_distinct) (rule distinct_map_filter)

lemma kahn_inv_initial:
  assumes "distinct (map node_id ns)" and "initial_state ns es prev = Inr s0"
  shows "kahn_inv rt ns es prev {} s0"
proof -
  note fr = initial_state_frame [OF assms(2)]
  note f = initial_facts [OF assms(2)]
  have "count_list (queue s0) k \<le> 1" for k
    unfolding f(4) using assms(1) by (rule count_list_map_filter_distinct)
  moreover have "k \<in> set (queue s0) \<union> {} \<longleftrightarrow> pending {} es k = 0"
    if "k \<in> node_ids ns" for k
    using that by (auto simp: f(4) node_ids_def)
  ultimately show ?thesis
    unfolding kahn_inv_def
    using fr(1-3) f(1,2,3,6) f(5) [OF assms(1)] by simp
qed

lemma kahn_step_skip:
  assumes inv: "kahn_inv rt ns es prev D s" and q: "queue s = k # rest"
    and k: "k \<notin> node_ids ns"
  shows "kahn_inv rt ns es prev D (s\<lparr>queue := rest\<rparr>)"
proof -
  have "count_list rest j \<le> 1" if "j \<in> node_ids ns" for j
  proof -
    from inv that have "count_list (queue s) j \<le> 1" by (simp add: kahn_inv_def)
    with q show ?thesis by (simp split: if_splits)
  qed
  moreover from inv q have "set rest \<inter> D = {}"
    by (auto simp: kahn_inv_def)
  moreover have "j \<in> set rest \<union> D \<longleftrightarrow> pending D es j = 0" if "j \<in> node_ids ns" for j
  proof -
    from inv that have "j \<in> set (queue s) \<union> D \<longleftrightarrow> pending D es j = 0"
      by (simp add: kahn_inv_def)
    moreover from that k have "j \<noteq> k" by auto
    ultimately show ?thesis using q by auto
  qed
  ultimately show ?thesis
    using inv unfolding kahn_inv_def by simp
qed

lemma kahn_step_node:
  assumes dist: "distinct (map node_id ns)"
    and inv: "kahn_inv rt ns es prev D s" and q: "queue s = k # rest"
    and n: "n \<in> set ns" "node_id n = k"
    and v: "visit rt k (s\<lparr>queue := rest\<rparr>) = Some (Inr s')"
  shows "kahn_inv rt ns es prev (insert k D) s'"
proof -
  let ?V = "node_ids ns"
  let ?D' = "insert k D"
  let ?ts = "outgoing es k"
  from inv have fr: "nodes s = ns" "edges s = es" "prevNodeResults s = prev"
    and pV: "''__proto__'' \<notin> ?V"
    and adj: "adjacency s = (\<lambda>u. if u \<in> ?V then Some (outgoing es u) else None)"
    and DV: "D \<subseteq> ?V"
    and dq: "\<And>j. j \<in> ?V \<Longrightarrow> count_list (queue s) j \<le> 1"
    and qD: "set (queue s) \<inter> D = {}"
    and deg: "\<And>j. j \<in> ?V \<Longrightarrow> inDegree s j = Some (Count (int (pending D es j)))"
    and rdy: "\<And>j. j \<in> ?V \<Longrightarrow> j \<in> set (queue s) \<union> D \<longleftrightarrow> pending D es j = 0"
    and sch: "\<And>j. j \<in> D \<Longrightarrow> scheduled ns es j"
    and out: "\<And>m. m \<in> set ns \<Longrightarrow>
        (if node_id m \<in> D then settled rt s m else nodeResults s (node_id m) = seed_of m)"
    and non: "\<And>j. j \<notin> ?V \<Longrightarrow> nodeResults s j = None"
    unfolding kahn_inv_def by simp_all
  from n have kV: "k \<in> ?V" by (auto simp: node_ids_def)
  with pV have kp: "k \<noteq> ''__proto__''" by auto
  from q qD have kD: "k \<notin> D" by auto
  from rdy [OF kV] q have pk: "pending D es k = 0" by simp
  then have srcD: "\<And>e. e \<in> set es \<Longrightarrow> target e = k \<Longrightarrow> source e \<in> D"
    by (simp add: pending_zero_iff)
  from dq [OF kV] q have "count_list rest k = 0" by simp
  then have k_rest: "k \<notin> set rest" by (simp add: count_list_0_iff)
  have d_rest: "count_list rest j \<le> 1" if "j \<in> ?V" for j
    using dq [OF that] q by (simp split: if_splits)

  let ?s0 = "s\<lparr>queue := rest\<rparr>"
  from find_node_distinct [OF dist n(1)] n(2) fr
  have f: "find (\<lambda>n. node_id n = k) (nodes ?s0) = Some n" by simp
  from visit_found [OF f v kp] obtain s2 where
    s': "trigger_neighbors k s2 = Inr s'" and q2: "queue s2 = rest"
    and deg2: "inDegree s2 = inDegree s" and adj2: "adjacency s2 = adjacency s"
    and fr2: "nodes s2 = ns" "edges s2 = es" "prevNodeResults s2 = prev"
    and res2_None: "input_data rt ?s0 n = None \<Longrightarrow> nodeResults s2 = nodeResults s"
    and res2_Some: "\<And>d. input_data rt ?s0 n = Some d \<Longrightarrow>
           \<exists>v. node_output rt ?s0 n d = Some v \<and> nodeResults s2 = (nodeResults s)(k \<mapsto> v)"
    using fr by auto
  from adj2 adj kV kp s' have s'_fold: "s' = fold trigger ?ts s2"
    by (simp add: trigger_neighbors_def get_property_def)

  have fr': "nodes s' = ns" "edges s' = es" "prevNodeResults s' = prev"
    "adjacency s' = adjacency s" "nodeResults s' = nodeResults s2"
    by (simp_all add: s'_fold fr2 adj2)

  have at: "inDegree s' j = Some (Count (int (pending D es j) - int (count_list ?ts j))) \<and>
      count_list (queue s') j = count_list rest j +
        (if 0 < int (pending D es j) \<and> int (pending D es j) \<le> int (count_list ?ts j)
         then 1 else 0)"
    if "j \<in> ?V" for j
  proof -
    from that pV have "j \<noteq> ''__proto__''" by auto
    moreover from deg [OF that] deg2 have "inDegree s2 j = Some (Count (int (pending D es j)))"
      by simp
    ultimately show ?thesis
      using fold_trigger_at [of j s2 "int (pending D es j)" ?ts] by (simp add: s'_fold q2)
  qed
  have deg': "inDegree s' j = Some (Count (int (pending ?D' es j)))" if "j \<in> ?V" for j
    using at [OF that] pending_insert [OF kD, of es j] by simp
  have cnt: "count_list (queue s') j = count_list rest j +
        (if 0 < pending D es j \<and> pending ?D' es j = 0 then 1 else 0)"
    if "j \<in> ?V" for j
    using at [OF that] pending_insert [OF kD, of es j] by auto
  have mem: "j \<in> set (queue s') \<longleftrightarrow> j \<in> set rest \<or> (0 < pending D es j \<and> pending ?D' es j = 0)"
    if "j \<in> ?V" for j
  proof -
    have "j \<in> set (queue s') \<longleftrightarrow> 0 < count_list (queue s') j"
      using count_list_0_iff [of "queue s'" j] by auto
    moreover have "j \<in> set rest \<longleftrightarrow> 0 < count_list rest j"
      using count_list_0_iff [of rest j] by auto
    ultimately show ?thesis using cnt [OF that] by auto
  qed
  have pending_mono: "pending D es j = 0 \<Longrightarrow> pending ?D' es j = 0" for j
    using pending_insert [OF kD, of es j] by simp

  have c_sub: "?D' \<subseteq> ?V" using DV kV by simp
  have c_dist: "count_list (queue s') j \<le> 1" if "j \<in> ?V" for j
  proof (cases "j \<in> set rest")
    case True
    with q rdy [OF that] have "pending D es j = 0" by simp
    with cnt [OF that] d_rest [OF that] show ?thesis by simp
  next
    case False
    then have "count_list rest j = 0" by (simp add: count_list_0_iff)
    with cnt [OF that] show ?thesis by simp
  qed
  have c_disj: "set (queue s') \<inter> ?D' = {}"
  proof -
    have "j \<notin> set (queue s')" if "j \<in> ?D'" for j
    proof -
      from that c_sub have jV: "j \<in> ?V" by auto
      from that q rdy [OF jV] have "pending D es j = 0" by auto
      moreover from that qD q k_rest have "j \<notin> set rest" by auto
      ultimately show ?thesis using mem [OF jV] by simp
    qed
    then show ?thesis by auto
  qed
  have c_rdy: "j \<in> set (queue s') \<union> ?D' \<longleftrightarrow> pending ?D' es j = 0" if jV: "j \<in> ?V" for j
  proof
    note m = mem [OF jV]
    assume "j \<in> set (queue s') \<union> ?D'"
    with q m have "j \<in> set (queue s) \<union> D \<or> (0 < pending D es j \<and> pending ?D' es j = 0)"
      by auto
    then show "pending ?D' es j = 0"
    proof
      assume "j \<in> set (queue s) \<union> D"
      with rdy [OF jV] show ?thesis by (simp add: pending_mono)
    next
      assume "0 < pending D es j \<and> pending ?D' es j = 0"
      then show ?thesis by simp
    qed
  next
    note m = mem [OF jV]
    assume z: "pending ?D' es j = 0"
    show "j \<in> set (queue s') \<union> ?D'"
    proof (cases "pending D es j = 0")
      case True
      with rdy [OF jV] q m show ?thesis by auto
    next
      case False
      with z m show ?thesis by simp
    qed
  qed
  have c_sch: "scheduled ns es j" if "j \<in> ?D'" for j
  proof (cases "j = k")
    case True
    have "\<forall>e \<in> set es. target e = k \<longrightarrow> scheduled ns es (source e)"
      using srcD sch by blast
    with kV True show ?thesis by (simp add: scheduled.intros)
  next
    case False
    with that sch show ?thesis by simp
  qed

  have res_other: "nodeResults s' j = nodeResults s j" if "j \<noteq> k" for j
  proof (cases "input_data rt ?s0 n")
    case None
    from res2_None [OF this] show ?thesis by (simp add: fr')
  next
    case (Some d)
    from res2_Some [OF this] that show ?thesis by (auto simp: fr')
  qed
  have up_same: "nodeResults s' (source e) = nodeResults s (source e)"
    if "e \<in> set (edges s)" "target e = node_id m" "node_id m \<in> ?D'" "m \<in> set ns" for e m
  proof -
    have "source e \<in> D"
    proof (cases "node_id m = k")
      case True
      with that fr srcD show ?thesis by simp
    next
      case False
      with that have mD: "node_id m \<in> D" by simp
      with DV have "node_id m \<in> ?V" by auto
      from rdy [OF this] mD have "pending D es (node_id m) = 0" by simp
      with that fr show ?thesis by (simp add: pending_zero_iff)
    qed
    with kD have "source e \<noteq> k" by auto
    then show ?thesis by (rule res_other)
  qed
  have c_settled_old: "settled rt s' m" if "m \<in> set ns" "node_id m \<in> D" for m
  proof -
    from that kD have "node_id m \<noteq> k" by auto
    then have "nodeResults s' (node_id m) = nodeResults s (node_id m)" by (rule res_other)
    then have "settled rt s' m = settled rt s m"
      using up_same [of _ m] that by (intro settled_cong) (simp_all add: fr fr')
    with out [OF that(1)] that(2) show ?thesis by simp
  qed
  have c_settled_k: "settled rt s' n"
  proof -
    have io: "incoming_outputs rt s' n = incoming_outputs rt s n"
      using up_same [of _ n] n by (intro incoming_outputs_cong) (simp_all add: fr fr')
    from out [OF n(1)] n(2) kD have seed: "nodeResults s k = seed_of n" by simp
    have rd: "is_source n \<Longrightarrow> read_value rt (nodeResults s) k = seed_of n"
      using seed kp by (simp add: read_value_def get_property_def seed_of_def)
    have id: "input_data rt ?s0 n =
       (if filter (\<lambda>e. target e = k) es \<noteq> [] then aggregate (incoming_outputs rt s n)
        else seed_of n)"
    proof -
      have "incoming_outputs rt ?s0 n = incoming_outputs rt s n"
        by (rule incoming_outputs_cong) simp_all
      then show ?thesis
        using rd n(2) fr by (auto simp: input_data_eq seed_of_def)
    qed
    show ?thesis
    proof (cases "aggregate (incoming_outputs rt s n)")
      case None
      then have nil: "incoming_outputs rt s n = []" by (simp add: aggregate_None_iff)
      have "nodeResults s' k = seed_of n"
      proof (cases "input_data rt ?s0 n")
        case None
        from res2_None [OF this] seed show ?thesis by (simp add: fr')
      next
        case (Some d)
        with id \<open>aggregate (incoming_outputs rt s n) = None\<close>
        have d: "seed_of n = Some d" and src: "is_source n"
          by (auto simp: seed_of_def split: if_splits)
        from src have "node_output rt ?s0 n d = Some d"
          by (auto simp: node_output_def is_source_def)
        with res2_Some [OF Some] d show ?thesis by (auto simp: fr')
      qed
      with None io n(2) show ?thesis by (simp add: settled_def)
    next
      case (Some d)
      then have "incoming_outputs rt s n \<noteq> []"
        using aggregate_None_iff [of "incoming_outputs rt s n"] by auto
      then have "filter (\<lambda>e. target e = k) es \<noteq> []"
        using incoming_outputs_Nil [of n s rt] n(2) fr by auto
      with id Some have "input_data rt ?s0 n = Some d" by simp
      from res2_Some [OF this] obtain w where w: "node_output rt ?s0 n d = Some w"
        and r: "nodeResults s2 = (nodeResults s)(k \<mapsto> w)" by auto
      have "node_output rt s' n d = node_output rt ?s0 n d"
        by (rule node_output_cong) (simp add: fr fr')
      with w r Some io n(2) show ?thesis by (simp add: settled_def fr')
    qed
  qed
  have c_out: "if node_id m \<in> ?D' then settled rt s' m else nodeResults s' (node_id m) = seed_of m"
    if "m \<in> set ns" for m
  proof (cases "node_id m = k")
    case True
    with same_id_same_node [OF dist n(1) that] n(2) have "m = n" by simp
    with c_settled_k True show ?thesis by simp
  next
    case False
    show ?thesis
    proof (cases "node_id m \<in> D")
      case True
      with c_settled_old [OF that] show ?thesis by simp
    next
      case False
      with out [OF that] res_other [OF \<open>node_id m \<noteq> k\<close>] \<open>node_id m \<noteq> k\<close>
      show ?thesis by simp
    qed
  qed
  have c_non: "nodeResults s' j = None" if "j \<notin> ?V" for j
  proof -
    from that kV have "j \<noteq> k" by auto
    with res_other non [OF that] show ?thesis by simp
  qed
  show ?thesis
    unfolding kahn_inv_def
    using fr'(1-4) pV adj c_sub c_dist c_disj deg' c_rdy c_sch c_out c_non by simp
qed

lemma kahn_step:
  assumes dist: "distinct (map node_id ns)"
    and inv: "\<exists>D. kahn_inv rt ns es prev D s" and q: "queue s = k # rest"
    and v: "visit rt k (s\<lparr>queue := rest\<rparr>) = Some (Inr s')"
  shows "\<exists>D. kahn_inv rt ns es prev D s'"
proof -
  from inv obtain D where inv: "kahn_inv rt ns es prev D s" ..
  show ?thesis
  proof (cases "k \<in> node_ids ns")
    case True
    then obtain n where "n \<in> set ns" "node_id n = k" by (auto simp: node_ids_def)
    from kahn_step_node [OF dist inv q this v] show ?thesis ..
  next
    case False
    with inv have "find (\<lambda>n. node_id n = k) (nodes (s\<lparr>queue := rest\<rparr>)) = None"
      by (auto simp: find_None_iff kahn_inv_def node_ids_def)
    with v have "s' = s\<lparr>queue := rest\<rparr>" by (simp add: visit_def)
    with kahn_step_skip [OF inv q False] show ?thesis by blast
  qed
qed

subsection \<open>The outputs when the loop has ended\<close>

lemma kahn_final:
  assumes "distinct (map node_id ns)" and "final_state rt ns es prev = Some (Inr t)"
  shows "\<exists>D. kahn_inv rt ns es prev D t \<and> queue t = []"
proof -
  from assms(2) obtain s0 where s0: "initial_state ns es prev = Inr s0"
    and r: "run rt s0 = Some (Inr t)"
    by (rule final_state_Inr)
  have i: "\<exists>D. kahn_inv rt ns es prev D s0"
    using kahn_inv_initial [OF assms(1) s0] by blast
  from run_invariant [of rt _ t "\<lambda>s. \<exists>D. kahn_inv rt ns es prev D s", OF r i]
    kahn_step [OF assms(1)]
  show ?thesis by blast
qed

lemma scheduled_dequeued:
  assumes "kahn_inv rt ns es prev D t" and "queue t = []"
  shows "scheduled ns es k \<Longrightarrow> k \<in> D"
proof (induction rule: scheduled.induct)
  case (1 k)
  then have "pending D es k = 0" by (simp add: pending_zero_iff)
  with assms 1(1) show ?case by (simp add: kahn_inv_def)
qed

text \<open>
  When the loop has ended, the arguments are unchanged, the output of every scheduled
  node is settled, and the output of every other node is its seed.
\<close>

lemma kahn_result:
  assumes "distinct (map node_id ns)" and "final_state rt ns es prev = Some (Inr t)"
  shows "nodes t = ns" and "edges t = es" and "prevNodeResults t = prev"
    and "n \<in> set ns \<Longrightarrow> scheduled ns es (node_id n) \<Longrightarrow> settled rt t n"
    and "n \<in> set ns \<Longrightarrow> \<not> scheduled ns es (node_id n) \<Longrightarrow> nodeResults t (node_id n) = seed_of n"
    and "k \<notin> node_ids ns \<Longrightarrow> nodeResults t k = None"
proof -
  from kahn_final [OF assms] obtain D where inv: "kahn_inv rt ns es prev D t"
    and q: "queue t = []" by blast
  from inv show "nodes t = ns" "edges t = es" "prevNodeResults t = prev"
    by (simp_all add: kahn_inv_def)
  from inv show "nodeResults t k = None" if "k \<notin> node_ids ns"
    using that by (simp add: kahn_inv_def)
  from inv have out: "\<And>m. m \<in> set ns \<Longrightarrow>
        (if node_id m \<in> D then settled rt t m else nodeResults t (node_id m) = seed_of m)"
    and sch: "\<And>j. j \<in> D \<Longrightarrow> scheduled ns es j"
    by (simp_all add: kahn_inv_def)
  show "settled rt t n" if "n \<in> set ns" "scheduled ns es (node_id n)"
    using out [OF that(1)] scheduled_dequeued [OF inv q that(2)] by simp
  show "nodeResults t (node_id n) = seed_of n" if "n \<in> set ns" "\<not> scheduled ns es (node_id n)"
  proof -
    from sch [of "node_id n"] that(2) have "node_id n \<notin> D" by auto
    with out [OF that(1)] show ?thesis by simp
  qed
qed

subsection \<open>Acyclic graphs, and cycles\<close>

lemma acyclic_all_scheduled:
  assumes "acyclic_graph ns es"
  shows "k \<in> node_ids ns \<Longrightarrow> scheduled ns es k"
proof -
  have "finite (edge_rel es)" by (simp add: edge_rel_def)
  moreover from assms have "acyclic (edge_rel es)" by (simp add: acyclic_graph_def)
  ultimately have "wf (edge_rel es)" by (rule finite_acyclic_wf)
  then show "k \<in> node_ids ns \<Longrightarrow> scheduled ns es k"
  proof (induction k rule: wf_induct_rule)
    case (less k)
    have "scheduled ns es (source e)" if "e \<in> set es" "target e = k" for e
    proof -
      from that have "(source e, k) \<in> edge_rel es" by (auto simp: edge_rel_def)
      moreover from assms that(1) have "source e \<in> node_ids ns"
        by (simp add: acyclic_graph_def)
      ultimately show ?thesis by (rule less.IH)
    qed
    with less.prems show ?case by (simp add: scheduled.intros)
  qed
qed

text \<open>A node inside a cycle is never dequeued.\<close>

lemma cycle_not_scheduled:
  "scheduled ns es k \<Longrightarrow> (k, k) \<notin> (edge_rel es)\<^sup>+"
proof (induction rule: scheduled.induct)
  case (1 k)
  show ?case
  proof
    assume "(k, k) \<in> (edge_rel es)\<^sup>+"
    then obtain j where j: "(k, j) \<in> (edge_rel es)\<^sup>*" "(j, k) \<in> edge_rel es"
      by (auto dest: tranclD2)
    then obtain e where e: "e \<in> set es" "source e = j" "target e = k"
      by (auto simp: edge_rel_def)
    with 1(2) have "(j, j) \<notin> (edge_rel es)\<^sup>+" by auto
    moreover from j(2,1) have "(j, j) \<in> (edge_rel es)\<^sup>+" by (rule rtrancl_into_trancl2)
    ultimately show False by simp
  qed
qed

lemma settled_has_output_iff:
  assumes "settled rt t n" and "\<forall>e \<in> set (edges t). source e \<notin> set inherited_names"
  shows "nodeResults t (node_id n) \<noteq> None \<longleftrightarrow>
           is_source n \<or> (\<exists>e \<in> set (edges t). target e = node_id n \<and> nodeResults t (source e) \<noteq> None)"
proof -
  have io: "incoming_outputs rt t n = upstream_outputs (nodeResults t) (edges t) (node_id n)"
    by (rule incoming_upstream [OF assms(2)])
  show ?thesis
  proof (cases "aggregate (incoming_outputs rt t n)")
    case None
    then have "incoming_outputs rt t n = []" by (simp add: aggregate_None_iff)
    then have "\<not> (\<exists>e \<in> set (edges t). target e = node_id n \<and> nodeResults t (source e) \<noteq> None)"
      unfolding io by (auto simp: upstream_outputs_def filter_empty_conv)
    with assms(1) None show ?thesis by (auto simp: settled_def seed_of_def)
  next
    case (Some d)
    then have "incoming_outputs rt t n \<noteq> []"
      using aggregate_None_iff [of "incoming_outputs rt t n"] by auto
    then have "\<exists>e \<in> set (edges t). target e = node_id n \<and> nodeResults t (source e) \<noteq> None"
      unfolding io by (auto simp: upstream_outputs_def filter_empty_conv)
    moreover have "nodeResults t (node_id n) \<noteq> None \<and>
        nodeResults t (node_id n) = node_output rt t n d"
      using assms(1) unfolding settled_def Some option.case .
    then have "nodeResults t (node_id n) \<noteq> None" by (rule conjunct1)
    ultimately show ?thesis by simp
  qed
qed

section \<open>Which nodes receive an output\<close>

text \<open>
  Claim C1, amended. Take a node list with unique ids, an edge list such that no id of a
  node and no source of an edge is a name that every object inherits (\<^verbatim>\<open>constructor\<close>,
  \<^verbatim>\<open>toString\<close>, \<^verbatim>\<open>__proto__\<close> and the like), any previous-output map, and a call of
  \<open>executeFlow\<close> that returns. If the graph is acyclic (its edges join existing nodes and
  form no directed cycle), a node id has an entry in the returned node-output map exactly
  if it is reachable, along zero or more edges, from a node of the kind INPUT or EMITTER:
  so every node reachable from a zero-in-degree node of those two kinds has its entry,
  and a zero-in-degree node of another kind has none, nor has a node reachable from such
  nodes only. And in any graph, a node lying inside a cycle has no entry, unless it is of
  the kind INPUT or EMITTER: then its entry is the seed taken from its pattern.
\<close>

theorem acyclic_outputs:
  assumes "distinct (map node_id ns)" and "plain_ids ns es"
    and "executeFlow rt ns es prev = Some (Inr r)"
  shows "(acyclic_graph ns es \<longrightarrow>
            (\<forall>k. nodeResults r k \<noteq> None \<longleftrightarrow>
               (\<exists>n \<in> set ns. is_source n \<and> (node_id n, k) \<in> (edge_rel es)\<^sup>*))) \<and>
         (\<forall>n \<in> set ns. (node_id n, node_id n) \<in> (edge_rel es)\<^sup>+ \<longrightarrow>
            nodeResults r (node_id n) =
              (if is_source n then Some (Str (node_pattern n)) else None))"
proof (intro conjI impI allI ballI)
  from assms(3) obtain t where t: "final_state rt ns es prev = Some (Inr t)"
    and r: "r = \<lparr>nodeResults = nodeResults t, edgeResults = edgeResults t\<rparr>"
    by (rule executeFlow_Inr)
  note res = kahn_result [OF assms(1) t]
  from assms(2) res(2) have plain: "\<forall>e \<in> set (edges t). source e \<notin> set inherited_names"
    by (simp add: plain_ids_def)
  {
    fix n assume n: "n \<in> set ns" and c: "(node_id n, node_id n) \<in> (edge_rel es)\<^sup>+"
    from c cycle_not_scheduled [of ns es "node_id n"] have "\<not> scheduled ns es (node_id n)"
      by auto
    from res(5) [OF n this] r
    show "nodeResults r (node_id n) = (if is_source n then Some (Str (node_pattern n)) else None)"
      by (simp add: seed_of_def)
  }
  fix k
  assume ac: "acyclic_graph ns es"
  then have valid: "\<And>e. e \<in> set es \<Longrightarrow> source e \<in> node_ids ns \<and> target e \<in> node_ids ns"
    by (simp add: acyclic_graph_def)
  have out: "nodeResults t (node_id n) \<noteq> None \<longleftrightarrow>
       is_source n \<or> (\<exists>e \<in> set es. target e = node_id n \<and> nodeResults t (source e) \<noteq> None)"
    if "n \<in> set ns" for n
  proof -
    from that have "scheduled ns es (node_id n)"
      by (intro acyclic_all_scheduled [OF ac]) (simp add: node_ids_def)
    from settled_has_output_iff [OF res(4) [OF that this] plain] res(2) show ?thesis by simp
  qed
  have fed_out: "nodeResults t k \<noteq> None" if "n \<in> set ns" "is_source n"
    "(node_id n, k) \<in> (edge_rel es)\<^sup>*" for n k
    using that(3)
  proof (induction rule: rtrancl_induct)
    case base
    with out [OF that(1)] that(2) show ?case by simp
  next
    case (step y z)
    then obtain e where e: "e \<in> set es" "source e = y" "target e = z"
      by (auto simp: edge_rel_def)
    from valid [OF e(1)] e(3) obtain m where m: "m \<in> set ns" "node_id m = z"
      by (auto simp: node_ids_def)
    with out [OF m(1)] e step.IH show ?case by auto
  qed
  have "finite (edge_rel es)" by (simp add: edge_rel_def)
  moreover from ac have "acyclic (edge_rel es)" by (simp add: acyclic_graph_def)
  ultimately have "wf (edge_rel es)" by (rule finite_acyclic_wf)
  then have out_fed: "nodeResults t k \<noteq> None \<Longrightarrow>
      \<exists>n \<in> set ns. is_source n \<and> (node_id n, k) \<in> (edge_rel es)\<^sup>*" for k
  proof (induction k rule: wf_induct_rule)
    case (less k)
    have "k \<in> node_ids ns"
    proof (rule ccontr)
      assume "k \<notin> node_ids ns"
      from res(6) [OF this] less.prems show False by simp
    qed
    then obtain m where m: "m \<in> set ns" "node_id m = k"
      by (auto simp: node_ids_def)
    show ?case
    proof (cases "is_source m")
      case True
      with m show ?thesis by auto
    next
      case False
      with out [OF m(1)] m(2) less.prems obtain e where
        e: "e \<in> set es" "target e = k" "nodeResults t (source e) \<noteq> None" by auto
      then have rel: "(source e, k) \<in> edge_rel es" by (auto simp: edge_rel_def)
      from less.IH [OF rel e(3)] obtain n where
        "n \<in> set ns" "is_source n" "(node_id n, source e) \<in> (edge_rel es)\<^sup>*" by blast
      with rel show ?thesis by (meson rtrancl.rtrancl_into_rtrancl)
    qed
  qed
  from fed_out [of _ k] out_fed [of k]
  show "nodeResults r k \<noteq> None \<longleftrightarrow>
      (\<exists>n \<in> set ns. is_source n \<and> (node_id n, k) \<in> (edge_rel es)\<^sup>*)"
    unfolding r by auto
qed

lemma single_edge_acyclic: "a \<noteq> b \<Longrightarrow> acyclic {(a, b)}"
  by (rule acyclicI_order [where f = "\<lambda>k. if k = a then 1 else (0::nat)"]) auto

lemma seq_graph_acyclic: "acyclic_graph (seq_nodes buffer) seq_edges"
  using single_edge_acyclic [of "''src''" "''seq''"]
  by (simp add: acyclic_graph_def seq_nodes_def seq_node_def seq_edges_def mk_node_def mk_edge_def
      node_ids_def edge_rel_def)

lemma idle_graph_acyclic: "acyclic_graph idle_nodes idle_edges"
  using single_edge_acyclic [of "''p''" "''out''"]
  by (simp add: acyclic_graph_def idle_nodes_def idle_edges_def mk_node_def mk_edge_def
      node_ids_def edge_rel_def)

lemma inherited_graph_acyclic: "acyclic_graph (inherited_nodes t) inherited_edges"
  using single_edge_acyclic [of "''constructor''" "''b''"]
  by (simp add: acyclic_graph_def inherited_nodes_def inherited_edges_def mk_node_def mk_edge_def
      node_ids_def edge_rel_def)

lemma sample_plain_ids:
  "plain_ids (seq_nodes buffer) seq_edges" "plain_ids loop_nodes loop_edges"
  "plain_ids pass_nodes pass_edges" "plain_ids starved_nodes starved_edges"
  "plain_ids cycle_nodes cycle_edges" "plain_ids idle_nodes idle_edges"
  by (simp_all add: plain_ids_def inherited_names_def seq_nodes_def seq_node_def seq_edges_def
      loop_nodes_def loop_edges_def pass_nodes_def pass_edges_def starved_nodes_def
      starved_edges_def cycle_nodes_def cycle_edges_def idle_nodes_def idle_edges_def
      mk_node_def mk_edge_def)

lemma loop_scenario_returns:
  "returns (executeFlow sample_runtime loop_nodes loop_edges first_pass)"
  by code_simp

text \<open>
  Claim C1, amended, on the source that feeds the Sequence node: the Sequence node is
  reachable from the source and has its entry; and on a source in front of a filter and
  a sink that feed each other: the filter lies inside a cycle and has no entry.
\<close>

theorem acyclic_outputs_witness:
  "nodeResults (returned (executeFlow sample_runtime (seq_nodes ''B'') seq_edges
      (seq_progress ''A''))) ''seq'' \<noteq> None \<and>
   nodeResults (returned (executeFlow sample_runtime loop_nodes loop_edges first_pass)) ''p'' =
     None"
proof
  let ?r = "returned (executeFlow sample_runtime (seq_nodes ''B'') seq_edges (seq_progress ''A''))"
  have ret: "executeFlow sample_runtime (seq_nodes ''B'') seq_edges (seq_progress ''A'') =
      Some (Inr ?r)"
    using sequence_scenario_returns by (rule returns_returned)
  let ?src = "mk_node ''src'' EMITTER None (Some (no_params\<lparr>pattern := Some ''B''\<rparr>))"
  have "?src \<in> set (seq_nodes ''B'')" and "is_source ?src"
    by (simp_all add: seq_nodes_def is_source_def mk_node_def)
  moreover have "(node_id ?src, ''seq'') \<in> (edge_rel seq_edges)\<^sup>*"
    by (auto simp: edge_rel_def seq_edges_def mk_edge_def mk_node_def)
  ultimately have "\<exists>n \<in> set (seq_nodes ''B''). is_source n \<and>
      (node_id n, ''seq'') \<in> (edge_rel seq_edges)\<^sup>*" by blast
  with acyclic_outputs [OF seq_nodes_facts(1) sample_plain_ids(1) ret, THEN conjunct1]
    seq_graph_acyclic [of "''B''"]
  show "nodeResults ?r ''seq'' \<noteq> None" by simp
next
  let ?r = "returned (executeFlow sample_runtime loop_nodes loop_edges first_pass)"
  let ?p = "mk_node ''p'' PROCESS (Some GREP) (grep_params ''x'')"
  have ret: "executeFlow sample_runtime loop_nodes loop_edges first_pass = Some (Inr ?r)"
    using loop_scenario_returns by (rule returns_returned)
  have dist: "distinct (map node_id loop_nodes)"
    by (simp add: loop_nodes_def mk_node_def)
  have p: "?p \<in> set loop_nodes" "node_id ?p = ''p''" "\<not> is_source ?p"
    by (simp_all add: loop_nodes_def mk_node_def is_source_def)
  have "(''p'', ''q'') \<in> edge_rel loop_edges" and "(''q'', ''p'') \<in> edge_rel loop_edges"
    by (simp_all add: edge_rel_def loop_edges_def mk_edge_def)
  then have "(''p'', ''p'') \<in> (edge_rel loop_edges)\<^sup>+" by (rule trancl.intros(2) [OF r_into_trancl])
  with acyclic_outputs [OF dist sample_plain_ids(2) ret, THEN conjunct2, THEN bspec, OF p(1)] p(2,3)
  show "nodeResults ?r ''p'' = None" by simp
qed

text \<open>
  Claim C1, as stated, fails on the acyclic graph of a filter node \<open>p\<close> without incoming
  edges and a sink behind it: both are reachable from \<open>p\<close>, whose in-degree is zero, and
  neither has an entry when \<open>executeFlow\<close> has returned, since \<open>p\<close> is no source and has
  no input. It also fails on two sources that feed each other: each lies inside a cycle
  and has an entry, its seed.
\<close>

theorem acyclic_outputs_counterexample:
  "acyclic_graph idle_nodes idle_edges \<and>
   returns (executeFlow sample_runtime idle_nodes idle_edges first_pass) \<and>
   pending {} idle_edges ''p'' = 0 \<and>
   nodeResults (returned (executeFlow sample_runtime idle_nodes idle_edges first_pass)) ''p'' =
     None \<and>
   nodeResults (returned (executeFlow sample_runtime idle_nodes idle_edges first_pass)) ''out'' =
     None \<and>
   returns (executeFlow sample_runtime cycle_nodes cycle_edges first_pass) \<and>
   (''a'', ''a'') \<in> (edge_rel cycle_edges)\<^sup>+ \<and>
   nodeResults (returned (executeFlow sample_runtime cycle_nodes cycle_edges first_pass)) ''a'' =
     Some (Str ''x'')"
proof -
  have "returns (executeFlow sample_runtime idle_nodes idle_edges first_pass)"
    by code_simp
  moreover have "pending {} idle_edges ''p'' = 0"
    by (simp add: pending_def idle_edges_def mk_edge_def)
  moreover have
    "nodeResults (returned (executeFlow sample_runtime idle_nodes idle_edges first_pass)) ''p'' =
       None"
    "nodeResults (returned (executeFlow sample_runtime idle_nodes idle_edges first_pass)) ''out'' =
       None"
    by code_simp+
  moreover have "returns (executeFlow sample_runtime cycle_nodes cycle_edges first_pass)"
    by code_simp
  moreover have "(''a'', ''b'') \<in> edge_rel cycle_edges" and "(''b'', ''a'') \<in> edge_rel cycle_edges"
    by (simp_all add: edge_rel_def cycle_edges_def mk_edge_def)
  then have "(''a'', ''a'') \<in> (edge_rel cycle_edges)\<^sup>+"
    by (rule trancl.intros(2) [OF r_into_trancl])
  moreover have
    "nodeResults (returned (executeFlow sample_runtime cycle_nodes cycle_edges first_pass)) ''a'' =
       Some (Str ''x'')"
    by code_simp
  ultimately show ?thesis using idle_graph_acyclic by simp
qed

text \<open>
  Why the ids must not be names that every object inherits: on the acyclic graph of a
  filter node without input under the id \<^verbatim>\<open>constructor\<close> and a sink behind it, line 53
  reads the function that the table of node outputs inherits under that name as the
  output of the filter node, and the sink gets an entry, though the graph has no node of
  the kind INPUT or EMITTER.
\<close>

lemma inherited_id_feeds_sink:
  "returns (executeFlow sample_runtime (inherited_nodes OUTPUT) inherited_edges first_pass)"
  "nodeResults (returned (executeFlow sample_runtime (inherited_nodes OUTPUT) inherited_edges
     first_pass)) ''b'' = Some (inherited_value sample_runtime ''constructor'')"
  "\<forall>n \<in> set (inherited_nodes OUTPUT). \<not> is_source n"
  by code_simp+

section \<open>The output of a Source node\<close>

lemma source_node_output: "is_source n \<Longrightarrow> node_output rt s n d = Some d"
  by (auto simp: node_output_def is_source_def)

text \<open>
  Claim C10, amended. For every Source node (kind INPUT or EMITTER) of a node list with
  unique ids, where no id of a node and no source of an edge is a name that every object
  inherits (\<^verbatim>\<open>constructor\<close>, \<^verbatim>\<open>toString\<close>, \<^verbatim>\<open>__proto__\<close> and the like), when
  \<open>executeFlow\<close> has returned: if the node is scheduled (it always is in an acyclic graph
  whose edges join nodes) and at least one of its incoming edges has a source with an
  output, the node's output is the aggregated upstream input, and the value seeded from
  its own pattern is discarded; in every other case, which is a node without incoming
  edges, a node none of whose incoming edges has a source with an output, and a node
  that is never dequeued, the node's output is the seeded pattern (the empty string when
  the pattern parameter is absent).
\<close>

theorem source_output:
  assumes "distinct (map node_id ns)" and "plain_ids ns es" and "n \<in> set ns" and "is_source n"
    and "executeFlow rt ns es prev = Some (Inr r)"
  shows "(scheduled ns es (node_id n) \<and> upstream_outputs (nodeResults r) es (node_id n) \<noteq> [] \<longrightarrow>
            nodeResults r (node_id n) = aggregate (upstream_outputs (nodeResults r) es (node_id n))) \<and>
         (\<not> scheduled ns es (node_id n) \<or> upstream_outputs (nodeResults r) es (node_id n) = [] \<longrightarrow>
            nodeResults r (node_id n) = Some (Str (node_pattern n)))"
proof -
  from assms(5) obtain t where t: "final_state rt ns es prev = Some (Inr t)"
    and r: "r = \<lparr>nodeResults = nodeResults t, edgeResults = edgeResults t\<rparr>"
    by (rule executeFlow_Inr)
  note res = kahn_result [OF assms(1) t]
  from assms(2) res(2) have plain: "\<forall>e \<in> set (edges t). source e \<notin> set inherited_names"
    by (simp add: plain_ids_def)
  have up: "incoming_outputs rt t n = upstream_outputs (nodeResults r) es (node_id n)"
    by (simp add: incoming_upstream [OF plain] res(2) r)
  have seed: "seed_of n = Some (Str (node_pattern n))"
    using assms(4) by (simp add: seed_of_def)
  show ?thesis
  proof (cases "scheduled ns es (node_id n)")
    case False
    from res(5) [OF assms(3) False] seed False show ?thesis by (simp add: r)
  next
    case True
    note st = res(4) [OF assms(3) True]
    show ?thesis
    proof (cases "aggregate (incoming_outputs rt t n)")
      case None
      then have "incoming_outputs rt t n = []" by (simp add: aggregate_None_iff)
      moreover from st None have "nodeResults t (node_id n) = seed_of n"
        by (simp add: settled_def)
      ultimately show ?thesis using seed up by (simp add: r)
    next
      case (Some d)
      then have "incoming_outputs rt t n \<noteq> []"
        using aggregate_None_iff [of "incoming_outputs rt t n"] by auto
      moreover from st Some have "nodeResults t (node_id n) = node_output rt t n d"
        by (simp add: settled_def)
      then have "nodeResults t (node_id n) = aggregate (incoming_outputs rt t n)"
        by (simp add: source_node_output [OF assms(4)] Some)
      ultimately show ?thesis using up True by (simp add: r)
    qed
  qed
qed

lemma pass_scheduled: "scheduled pass_nodes pass_edges ''b''"
proof -
  have a: "scheduled pass_nodes pass_edges ''a''"
    by (rule scheduled.intros)
      (simp_all add: pass_nodes_def pass_edges_def node_ids_def mk_node_def mk_edge_def)
  show ?thesis
    by (rule scheduled.intros)
      (simp_all add: pass_nodes_def pass_edges_def node_ids_def mk_node_def mk_edge_def
        a [unfolded pass_nodes_def pass_edges_def mk_node_def mk_edge_def])
qed

lemma pass_returns:
  "returns (executeFlow sample_runtime pass_nodes pass_edges first_pass)"
  by code_simp

lemma pass_upstream:
  "upstream_outputs (nodeResults (returned (executeFlow sample_runtime pass_nodes pass_edges
     first_pass))) pass_edges ''b'' = [Str ''hi'']"
  by code_simp

text \<open>Claim C10, amended, on a source fed by another source: it passes \<open>hi\<close> through.\<close>

theorem source_output_witness:
  "nodeResults (returned (executeFlow sample_runtime pass_nodes pass_edges first_pass)) ''b'' =
     Some (Str ''hi'')"
proof -
  let ?r = "returned (executeFlow sample_runtime pass_nodes pass_edges first_pass)"
  let ?b = "mk_node ''b'' INPUT None (grep_params ''seed'')"
  have ret: "executeFlow sample_runtime pass_nodes pass_edges first_pass = Some (Inr ?r)"
    using pass_returns by (rule returns_returned)
  have "distinct (map node_id pass_nodes)" and "?b \<in> set pass_nodes" and "is_source ?b"
    and b: "node_id ?b = ''b''"
    by (simp_all add: pass_nodes_def mk_node_def is_source_def)
  from source_output [OF this(1) sample_plain_ids(3) this(2,3) ret] show ?thesis
    unfolding b using pass_scheduled pass_upstream by (simp add: aggregate_def)
qed

text \<open>
  Claim C10, as stated, fails twice. The source \<open>b\<close> behind the filter node \<open>p\<close>, which
  has no input and so no output, has an incoming edge, and its final output is its seed.
  And of two sources on a cycle, \<open>b\<close> has an incoming edge whose source has the output
  \<open>x\<close>, yet the output of \<open>b\<close> stays its seed \<open>y\<close>, since \<open>b\<close> is never dequeued.
\<close>

theorem source_output_counterexample:
  "returns (executeFlow sample_runtime starved_nodes starved_edges first_pass) \<and>
   pending {} starved_edges ''b'' = 1 \<and>
   nodeResults (returned (executeFlow sample_runtime starved_nodes starved_edges first_pass))
     ''b'' = Some (Str ''seed'') \<and>
   returns (executeFlow sample_runtime cycle_nodes cycle_edges first_pass) \<and>
   upstream_outputs (nodeResults (returned (executeFlow sample_runtime cycle_nodes cycle_edges
     first_pass))) cycle_edges ''b'' = [Str ''x''] \<and>
   nodeResults (returned (executeFlow sample_runtime cycle_nodes cycle_edges first_pass)) ''b'' =
     Some (Str ''y'')"
  by code_simp

text \<open>
  Why the ids must not be names that every object inherits: behind a filter node without
  input under the id \<^verbatim>\<open>constructor\<close>, the source \<open>b\<close> has an incoming edge whose source
  has no output; line 53 reads the function that the table of node outputs inherits
  under that name, and the output of \<open>b\<close> is that function, not its seed.
\<close>

lemma inherited_id_feeds_source:
  "returns (executeFlow sample_runtime (inherited_nodes INPUT) inherited_edges first_pass)"
  "nodeResults (returned (executeFlow sample_runtime (inherited_nodes INPUT) inherited_edges
     first_pass)) ''constructor'' = None"
  "nodeResults (returned (executeFlow sample_runtime (inherited_nodes INPUT) inherited_edges
     first_pass)) ''b'' = Some (inherited_value sample_runtime ''constructor'')"
  by code_simp+

section \<open>Edges whose source is no node\<close>

text \<open>
  In general: in a node list with unique ids, the target of an edge whose source is no
  node keeps its seed, whatever else feeds it.
\<close>

lemma dangling_source_blocks_target:
  assumes "distinct (map node_id ns)" and "n \<in> set ns" and "e \<in> set es"
    and "target e = node_id n" and "source e \<notin> node_ids ns"
    and "executeFlow rt ns es prev = Some (Inr r)"
  shows "nodeResults r (node_id n) = seed_of n"
proof -
  from assms(6) obtain t where t: "final_state rt ns es prev = Some (Inr t)"
    and r: "r = \<lparr>nodeResults = nodeResults t, edgeResults = edgeResults t\<rparr>"
    by (rule executeFlow_Inr)
  have "\<not> scheduled ns es (node_id n)"
  proof
    assume "scheduled ns es (node_id n)"
    then have "scheduled ns es (source e)"
      using assms(3,4) by (auto elim: scheduled.cases)
    then have "source e \<in> node_ids ns" by (auto elim: scheduled.cases)
    with assms(5) show False by simp
  qed
  from kahn_result(5) [OF assms(1) t assms(2) this] show ?thesis by (simp add: r)
qed

text \<open>
  Claim C5 and the code part ways on an edge whose source is no node: line 33 counts the
  edge in the in-degree of its target, and nothing ever discounts it, although line 30
  leaves it out of the adjacency lists. With the edge from \<open>ghost\<close> the sink \<open>b\<close> is never
  scheduled and has no output; without it the sink receives \<open>hi\<close>. \<open>executeFlow\<close> returns
  in both cases.
\<close>

theorem dangling_source_failing_input:
  "returns (executeFlow sample_runtime sink_nodes [sink_edge, dangling_edge] first_pass) \<and>
   nodeResults (returned (executeFlow sample_runtime sink_nodes [sink_edge, dangling_edge]
     first_pass)) ''b'' = None \<and>
   returns (executeFlow sample_runtime sink_nodes [sink_edge] first_pass) \<and>
   nodeResults (returned (executeFlow sample_runtime sink_nodes [sink_edge] first_pass)) ''b'' =
     Some (Str ''hi'')"
  by code_simp

section \<open>Edges whose target is no node\<close>

lemma scheduled_drop_dangling_targets:
  "scheduled ns (filter (\<lambda>e. target e \<in> node_ids ns) es) k \<longleftrightarrow> scheduled ns es k"
proof
  assume "scheduled ns (filter (\<lambda>e. target e \<in> node_ids ns) es) k"
  then show "scheduled ns es k"
  proof (induction rule: scheduled.induct)
    case (1 k)
    then show ?case by (intro scheduled.intros) auto
  qed
next
  assume "scheduled ns es k"
  then show "scheduled ns (filter (\<lambda>e. target e \<in> node_ids ns) es) k"
  proof (induction rule: scheduled.induct)
    case (1 k)
    then show ?case by (intro scheduled.intros) auto
  qed
qed

lemma upstream_drop_dangling_targets:
  "k \<in> node_ids ns \<Longrightarrow>
     upstream_outputs results (filter (\<lambda>e. target e \<in> node_ids ns) es) k =
     upstream_outputs results es k"
proof -
  assume k: "k \<in> node_ids ns"
  have "filter (\<lambda>e. target e = k \<and> results (source e) \<noteq> None)
          (filter (\<lambda>e. target e \<in> node_ids ns) es) =
        filter (\<lambda>e. target e = k \<and> results (source e) \<noteq> None) es"
    unfolding filter_filter by (rule filter_cong [OF refl]) (use k in auto)
  then show ?thesis by (simp add: upstream_outputs_def)
qed

lemma upstream_outputs_cong:
  assumes "\<And>e. e \<in> set es \<Longrightarrow> target e = k \<Longrightarrow> f (source e) = g (source e)"
  shows "upstream_outputs f es k = upstream_outputs g es k"
proof -
  have "filter (\<lambda>e. target e = k \<and> f (source e) \<noteq> None) es =
        filter (\<lambda>e. target e = k \<and> g (source e) \<noteq> None) es"
    by (rule filter_cong [OF refl]) (auto simp: assms)
  moreover have "map (\<lambda>e. the (f (source e)))
          (filter (\<lambda>e. target e = k \<and> g (source e) \<noteq> None) es) =
        map (\<lambda>e. the (g (source e)))
          (filter (\<lambda>e. target e = k \<and> g (source e) \<noteq> None) es)"
    by (rule map_cong [OF refl]) (simp add: assms)
  ultimately show ?thesis by (simp add: upstream_outputs_def)
qed

text \<open>
  The part of claim C5 that holds: in a node list with unique ids, where no source of an
  edge is a name that every object inherits, the edges whose target is no node change
  no node's output.
\<close>

lemma dangling_target_ignored:
  assumes dist: "distinct (map node_id ns)"
    and plain: "\<forall>e \<in> set es. source e \<notin> set inherited_names"
    and "executeFlow rt ns es prev = Some (Inr r)"
    and "executeFlow rt ns (filter (\<lambda>e. target e \<in> node_ids ns) es) prev = Some (Inr r')"
  shows "nodeResults r = nodeResults r'"
proof -
  let ?es' = "filter (\<lambda>e. target e \<in> node_ids ns) es"
  from assms(3) obtain t where t: "final_state rt ns es prev = Some (Inr t)"
    and r: "r = \<lparr>nodeResults = nodeResults t, edgeResults = edgeResults t\<rparr>"
    by (rule executeFlow_Inr)
  from assms(4) obtain t' where t': "final_state rt ns ?es' prev = Some (Inr t')"
    and r': "r' = \<lparr>nodeResults = nodeResults t', edgeResults = edgeResults t'\<rparr>"
    by (rule executeFlow_Inr)
  note res = kahn_result [OF dist t]
  note res' = kahn_result [OF dist t']
  from plain res(2) have pl: "\<forall>e \<in> set (edges t). source e \<notin> set inherited_names" by simp
  from plain res'(2) have pl': "\<forall>e \<in> set (edges t'). source e \<notin> set inherited_names" by simp
  have sched: "nodeResults t k = nodeResults t' k" if "scheduled ns es k" for k
    using that
  proof (induction rule: scheduled.induct)
    case (1 k)
    then obtain n where n: "n \<in> set ns" "node_id n = k" by (auto simp: node_ids_def)
    from 1 have sk: "scheduled ns es k" by (intro scheduled.intros) auto
    then have sk': "scheduled ns ?es' k" by (simp add: scheduled_drop_dangling_targets)
    from res(4) [OF n(1)] sk n(2) have st: "settled rt t n" by simp
    from res'(4) [OF n(1)] sk' n(2) have st': "settled rt t' n" by simp
    have "incoming_outputs rt t' n = upstream_outputs (nodeResults t') es k"
      using 1(1)
      by (simp add: incoming_upstream [OF pl'] res'(2) n(2) upstream_drop_dangling_targets)
    also have "\<dots> = upstream_outputs (nodeResults t) es k"
      by (rule upstream_outputs_cong) (use 1 in auto)
    also have "\<dots> = incoming_outputs rt t n"
      by (simp add: incoming_upstream [OF pl] res(2) n(2))
    finally have io: "incoming_outputs rt t' n = incoming_outputs rt t n" .
    have no: "node_output rt t' n d = node_output rt t n d" for d
      by (rule node_output_cong) (simp add: res(3) res'(3))
    from st st' io no n(2) show ?case
      by (cases "aggregate (incoming_outputs rt t n)") (simp_all add: settled_def)
  qed
  have "nodeResults t k = nodeResults t' k" for k
  proof (cases "k \<in> node_ids ns")
    case False
    with res(6) res'(6) show ?thesis by simp
  next
    case True
    then obtain n where n: "n \<in> set ns" "node_id n = k" by (auto simp: node_ids_def)
    show ?thesis
    proof (cases "scheduled ns es k")
      case True
      then show ?thesis by (rule sched)
    next
      case False
      then have "\<not> scheduled ns ?es' k" by (simp add: scheduled_drop_dangling_targets)
      with res'(5) [OF n(1)] res(5) [OF n(1)] False n(2) show ?thesis by simp
    qed
  qed
  then show ?thesis by (auto simp: r r')
qed

section \<open>The arguments of executeFlow\<close>

text \<open>
  Claim C8. When \<open>executeFlow\<close> reaches its \<open>return\<close>, its three arguments are what
  they were at the call: the node list with every node's data, the edge list and the
  previous-output map. What it returns is made of the two maps it has built.
\<close>

theorem arguments_unchanged:
  assumes "final_state rt ns es prev = Some (Inr t)"
  shows "nodes t = ns \<and> edges t = es \<and> prevNodeResults t = prev \<and>
         executeFlow rt ns es prev =
           Some (Inr \<lparr>nodeResults = nodeResults t, edgeResults = edgeResults t\<rparr>)"
proof -
  from assms obtain s0 where s0: "initial_state ns es prev = Inr s0"
    and r: "run rt s0 = Some (Inr t)"
    by (rule final_state_Inr)
  have "(nodes t = ns \<and> edges t = es \<and> prevNodeResults t = prev) \<and> queue t = []"
  proof (rule run_invariant [OF r])
    show "nodes s0 = ns \<and> edges s0 = es \<and> prevNodeResults s0 = prev"
      using initial_state_frame [OF s0] by simp
  next
    fix s :: flow_state and k rest s'
    assume "nodes s = ns \<and> edges s = es \<and> prevNodeResults s = prev"
      and "visit rt k (s\<lparr>queue := rest\<rparr>) = Some (Inr s')"
    with visit_frame [of rt k "s\<lparr>queue := rest\<rparr>" s']
    show "nodes s' = ns \<and> edges s' = es \<and> prevNodeResults s' = prev" by simp
  qed
  with assms show ?thesis by (simp add: executeFlow_def)
qed

lemma seq_final_returns:
  "returns (final_state sample_runtime (seq_nodes ''B'') seq_edges (seq_progress ''A''))"
  by code_simp

text \<open>Claim C8 on the source that feeds the Sequence node.\<close>

theorem arguments_unchanged_witness:
  "nodes (returned (final_state sample_runtime (seq_nodes ''B'') seq_edges
     (seq_progress ''A''))) = seq_nodes ''B'' \<and>
   edges (returned (final_state sample_runtime (seq_nodes ''B'') seq_edges
     (seq_progress ''A''))) = seq_edges \<and>
   prevNodeResults (returned (final_state sample_runtime (seq_nodes ''B'') seq_edges
     (seq_progress ''A''))) = (seq_progress ''A'')"
proof -
  have "final_state sample_runtime (seq_nodes ''B'') seq_edges (seq_progress ''A'') =
      Some (Inr (returned (final_state sample_runtime (seq_nodes ''B'') seq_edges
        (seq_progress ''A''))))"
    using seq_final_returns by (rule returns_returned)
  from arguments_unchanged [OF this] show ?thesis by simp
qed

end
